theory Spec2Isabelle
  imports Complex_Main
begin

section \<open>The gait-classification sketch (MPU\_Gait\_Classification.ino)\<close>

text \<open>
  The sketch polls an MPU6050, waits for an acceleration trigger, fills the input tensor of a
  TensorFlow Lite Micro interpreter with 200 gyroscope rows, invokes the interpreter once and
  prints six labelled scores.

  Modelling decisions.
  \<^item> A C \<open>float\<close> is a real number. The sensor values are only compared with the threshold,
    added after \<open>fabs\<close>, and copied; rounding of the sum and the special values of IEEE
    arithmetic (NaN, infinities) are outside the model.
  \<^item> The C \<open>int\<close> counter \<open>samplesRead\<close> is an \<open>int\<close>; it is shown to stay within
    \<open>0..200\<close>, so no machine arithmetic on it overflows.
  \<^item> \<open>mpu.getEvent\<close> blocks until a reading is there. The readings are a list, consumed
    from the front, one element for each call; a loop that asks for a reading when the list is
    empty stops there and gives the state back.
  \<^item> \<open>while (1);\<close> never returns: the state becomes \<open>Halted\<close> and nothing runs after it.
  \<^item> An index outside a tensor is undefined behaviour in C: the state becomes
    \<open>WriteOutOfBounds\<close> or \<open>ReadOutOfBounds\<close> and nothing runs after it.
  \<^item> The serial port is a list of printed items; a number is kept with the digits asked for.
    The sketch first waits for the port (\<open>while (!Serial);\<close>); the model starts once it is open.
  \<^item> \<open>loop()\<close> declares \<open>aX, aY, aZ, gZ\<close> only; \<open>gX\<close> and \<open>gY\<close> are taken as two more
    floats of the same kind. All of them only carry a value to the next statement.
  \<^item> The threshold is a constant of the sketch, \<open>accelerationThreshold = 0\<close>. The loops are
    written once, with the threshold as a parameter (\<open>wait_loop_at\<close>, \<open>loop_at\<close>, \<open>run_at\<close>),
    and the sketch is their instance at that constant (\<open>wait_loop\<close>, \<open>loop\<close>, \<open>run\<close>).
  \<^item> The interpreter is an unknown function: from the number of earlier calls and the
    contents of the input tensor it gives a status and the contents of the output tensor.
    Each call is recorded, with the input tensor as it was, in \<open>invoked\<close>.
\<close>

subsection \<open>Data\<close>

type_synonym cfloat = real

text \<open>One reading of \<open>mpu.getEvent(&a, &g, &temp)\<close>: \<open>a.acceleration\<close> and \<open>g.gyro\<close>.\<close>

record sample =
  acc_x :: cfloat
  acc_y :: cfloat
  acc_z :: cfloat
  gyro_x :: cfloat
  gyro_y :: cfloat
  gyro_z :: cfloat

datatype TfLiteStatus = kTfLiteOk | kTfLiteError

datatype run_status = Running | Halted | WriteOutOfBounds | ReadOutOfBounds

datatype serial_item = Text string | Number cfloat nat | Newline

type_synonym interpreter = "nat \<Rightarrow> cfloat list \<Rightarrow> TfLiteStatus \<times> cfloat list"

text \<open>
  Modelled from the spec: the model blob of \<open>model.h\<close> is not in the sources. What \<open>setup\<close>
  reads from it is its schema version and the sizes of its first input and output tensors
  (the spec fixes the shapes \<open>[N, 3]\<close> and \<open>[C]\<close>; here they are fields, so that a blob of
  another shape can be written down).
\<close>

record tfl_model =
  version :: nat
  input_floats :: nat
  output_floats :: nat

text \<open>The global variables of the sketch, the serial output and the record of interpreter calls.\<close>

record sketch =
  samplesRead :: int
  inputTensor :: "cfloat list"
  outputTensor :: "cfloat list"
  serial :: "serial_item list"
  invoked :: "cfloat list list"
  status :: run_status

subsection \<open>Constants\<close>

definition accelerationThreshold :: cfloat where
  "accelerationThreshold = 0"

definition numSamples :: int where
  "numSamples = 200"

definition GAITS :: "string list" where
  "GAITS = [''Healthy'', ''Stage 1'', ''Stage 2'', ''Stage 3'', ''Standing'', ''Turning'']"

definition NUM_GAITS :: nat where
  "NUM_GAITS = 6"

text \<open>\<open>TFLITE_SCHEMA_VERSION\<close> of the TensorFlow Lite headers (\<open>tensorflow/lite/version.h\<close>).\<close>

definition TFLITE_SCHEMA_VERSION :: nat where
  "TFLITE_SCHEMA_VERSION = 3"

subsection \<open>Serial output\<close>

definition print :: "string \<Rightarrow> sketch \<Rightarrow> sketch" where
  "print s st = st\<lparr>serial := serial st @ [Text s]\<rparr>"

definition println :: "string \<Rightarrow> sketch \<Rightarrow> sketch" where
  "println s st = st\<lparr>serial := serial st @ [Text s, Newline]\<rparr>"

definition println_float :: "cfloat \<Rightarrow> nat \<Rightarrow> sketch \<Rightarrow> sketch" where
  "println_float v digits st = st\<lparr>serial := serial st @ [Number v digits, Newline]\<rparr>"

definition println_empty :: "sketch \<Rightarrow> sketch" where
  "println_empty st = st\<lparr>serial := serial st @ [Newline]\<rparr>"

definition halt :: "sketch \<Rightarrow> sketch" where
  "halt st = st\<lparr>status := Halted\<rparr>"

subsection \<open>setup\<close>

text \<open>The globals as initialised: \<open>samplesRead = numSamples\<close>, both tensor pointers null.\<close>

definition globals :: sketch where
  "globals = \<lparr>samplesRead = numSamples, inputTensor = [], outputTensor = [], serial = [],
              invoked = [], status = Running\<rparr>"

text \<open>
  The function \<open>setup()\<close> of the sketch, once the serial port is open. \<open>mpu_begin\<close> is what \<open>mpu.begin()\<close> returned.
  The tensors that \<open>AllocateTensors\<close> provides start zeroed (the arena is a static array).
\<close>

definition setup_sketch :: "bool \<Rightarrow> tfl_model \<Rightarrow> sketch" where
  "setup_sketch mpu_begin m =
     (if \<not> mpu_begin then halt (println ''Failed to initialize IMU!'' globals)
      else
        let st1 = println ''+-2G'' (print ''Accelerometer range set to: '' globals);
            st2 = println ''+- 2000 deg/s'' (print ''Gyro range set to: '' st1);
            st3 = println ''184 Hz'' (print ''Filter bandwidth set to: '' st2);
            st4 = println_empty st3
        in if version m \<noteq> TFLITE_SCHEMA_VERSION
           then halt (println ''Model schema mismatch!'' st4)
           else st4\<lparr>inputTensor := replicate (input_floats m) 0,
                    outputTensor := replicate (output_floats m) 0\<rparr>)"

subsection \<open>loop\<close>

definition aSum :: "sample \<Rightarrow> cfloat" where
  "aSum s = \<bar>acc_x s\<bar> + \<bar>acc_y s\<bar> + \<bar>acc_z s\<bar>"

text \<open>
  The first \<open>while\<close>: as long as \<open>samplesRead = numSamples\<close>, take a reading; when its sum
  reaches the threshold, reset the counter and leave the loop. The threshold the test
  compares with is the parameter \<open>thr\<close>; the sketch passes \<open>accelerationThreshold\<close>.
\<close>

fun wait_loop_at :: "cfloat \<Rightarrow> sketch \<Rightarrow> sample list \<Rightarrow> sketch \<times> sample list" where
  "wait_loop_at thr st [] = (st, [])"
| "wait_loop_at thr st (s # rest) =
     (if samplesRead st = numSamples then
        (if aSum s \<ge> thr then (st\<lparr>samplesRead := 0\<rparr>, rest)
         else wait_loop_at thr st rest)
      else (st, s # rest))"

definition wait_loop :: "sketch \<Rightarrow> sample list \<Rightarrow> sketch \<times> sample list" where
  "wait_loop = wait_loop_at accelerationThreshold"

text \<open>\<open>data.f[i] = v\<close> on a tensor of \<open>length t\<close> floats.\<close>

definition store :: "cfloat list \<Rightarrow> int \<Rightarrow> cfloat \<Rightarrow> cfloat list option" where
  "store t i v = (if 0 \<le> i \<and> i < int (length t) then Some (t[nat i := v]) else None)"

text \<open>One pass of the \<open>for\<close> loop over the output tensor.\<close>

definition report_gait :: "sketch \<Rightarrow> nat \<Rightarrow> sketch" where
  "report_gait st i =
     (if status st \<noteq> Running then st
      else if i < length (outputTensor st)
      then println_float (outputTensor st ! i) 6 (print '': '' (print (GAITS ! i) st))
      else st\<lparr>status := ReadOutOfBounds\<rparr>)"

text \<open>The body of \<open>if (samplesRead == numSamples)\<close>: run the interpreter, then report.\<close>

definition run_inference :: "interpreter \<Rightarrow> sketch \<Rightarrow> sketch" where
  "run_inference eng st =
     (case eng (length (invoked st)) (inputTensor st) of
        (invokeStatus, out) \<Rightarrow>
          let st1 = st\<lparr>invoked := invoked st @ [inputTensor st], outputTensor := out\<rparr>
          in if invokeStatus \<noteq> kTfLiteOk then halt (println ''Invoke failed!'' st1)
             else
               let st2 = foldl report_gait st1 [0..<NUM_GAITS]
               in if status st2 = Running then println_empty st2 else st2)"

text \<open>The three assignments to \<open>data.f[samplesRead * 3 + k]\<close>, in the order of the source.\<close>

definition store_row :: "cfloat list \<Rightarrow> int \<Rightarrow> sample \<Rightarrow> cfloat list option" where
  "store_row t n s =
     Option.bind (store t (n * 3 + 0) (gyro_x s)) (\<lambda>t1.
     Option.bind (store t1 (n * 3 + 1) (gyro_y s)) (\<lambda>t2.
     store t2 (n * 3 + 2) (gyro_z s)))"

text \<open>The body of the second \<open>while\<close>, for the reading \<open>s\<close>.\<close>

definition collect_body :: "interpreter \<Rightarrow> sketch \<Rightarrow> sample \<Rightarrow> sketch" where
  "collect_body eng st s =
     (case store_row (inputTensor st) (samplesRead st) s of
        None \<Rightarrow> st\<lparr>status := WriteOutOfBounds\<rparr>
      | Some t \<Rightarrow>
          let st1 = st\<lparr>inputTensor := t, samplesRead := samplesRead st + 1\<rparr>
          in if samplesRead st1 = numSamples then run_inference eng st1 else st1)"

fun collect_loop :: "interpreter \<Rightarrow> sketch \<Rightarrow> sample list \<Rightarrow> sketch \<times> sample list" where
  "collect_loop eng st [] = (st, [])"
| "collect_loop eng st (s # rest) =
     (if status st = Running \<and> samplesRead st < numSamples
      then collect_loop eng (collect_body eng st s) rest
      else (st, s # rest))"

text \<open>One call of \<open>loop()\<close>: the first \<open>while\<close>, then the second.\<close>

definition loop_at ::
  "cfloat \<Rightarrow> interpreter \<Rightarrow> sketch \<Rightarrow> sample list \<Rightarrow> sketch \<times> sample list" where
  "loop_at thr eng st ss =
     (case wait_loop_at thr st ss of (st1, rest) \<Rightarrow> collect_loop eng st1 rest)"

definition loop :: "interpreter \<Rightarrow> sketch \<Rightarrow> sample list \<Rightarrow> sketch \<times> sample list" where
  "loop = loop_at accelerationThreshold"

text \<open>
  The window the spec speaks of: rows of three gyroscope values, flattened row-major.
\<close>

definition gyro_row :: "sample \<Rightarrow> cfloat list" where
  "gyro_row s = [gyro_x s, gyro_y s, gyro_z s]"

definition flatten :: "sample list \<Rightarrow> cfloat list" where
  "flatten ss = concat (map gyro_row ss)"

text \<open>What one pass of the report loop prints for the class \<open>i\<close>.\<close>

definition report_line :: "cfloat list \<Rightarrow> nat \<Rightarrow> serial_item list" where
  "report_line out i = [Text (GAITS ! i), Text '': '', Number (out ! i) 6, Newline]"

subsection \<open>Concrete inputs\<close>

text \<open>
  A reading at rest, a model of the shape the spec gives (200 rows of 3 floats in, 6 scores
  out) and an interpreter that succeeds.
\<close>

definition quiet :: sample where
  "quiet = \<lparr>acc_x = 0, acc_y = 0, acc_z = 0, gyro_x = 1, gyro_y = 0, gyro_z = 0\<rparr>"

definition gait_model :: tfl_model where
  "gait_model = \<lparr>version = TFLITE_SCHEMA_VERSION, input_floats = 600, output_floats = 6\<rparr>"

definition zero_scores :: interpreter where
  "zero_scores k w = (kTfLiteOk, replicate 6 0)"

text \<open>
  Concrete readings: the one that triggers and 199 of the 200 that fill the window.
\<close>

definition almost :: "sample list" where
  "almost = quiet # replicate 199 quiet"

text \<open>An interpreter that fails, and a reading in motion.\<close>

definition broken :: interpreter where
  "broken k w = (kTfLiteError, [])"

definition shaken :: sample where
  "shaken = \<lparr>acc_x = 3, acc_y = - 4, acc_z = 12, gyro_x = 5, gyro_y = 6, gyro_z = 7\<rparr>"

subsection \<open>Termination of the main loop\<close>

lemma wait_loop_length_at: "length (snd (wait_loop_at thr st ss)) \<le> length ss"
  by (induction ss) (auto intro: le_SucI)

lemma collect_loop_length: "length (snd (collect_loop eng st ss)) \<le> length ss"
  by (induction ss arbitrary: st) (auto intro: le_SucI)

lemma wait_loop_idle_progress_at:
  "samplesRead st = numSamples \<Longrightarrow> length (snd (wait_loop_at thr st (s # rest))) \<le> length rest"
  using wait_loop_length_at [of thr st rest] by simp

lemma wait_loop_skip_at: "samplesRead st \<noteq> numSamples \<Longrightarrow> wait_loop_at thr st ss = (st, ss)"
  by (cases ss) simp_all

lemma loop_progress_at:
  assumes "status st = Running" "samplesRead st \<le> numSamples" "ss \<noteq> []"
  shows "length (snd (loop_at thr eng st ss)) < length ss"
proof -
  from assms(3) obtain s rest where ss: "ss = s # rest" by (cases ss) auto
  show ?thesis
  proof (cases "samplesRead st = numSamples")
    case True
    obtain st1 r1 where w: "wait_loop_at thr st ss = (st1, r1)" by (cases "wait_loop_at thr st ss")
    with wait_loop_idle_progress_at [OF True, of thr s rest] ss have "length r1 \<le> length rest" by simp
    moreover have "length (snd (collect_loop eng st1 r1)) \<le> length r1"
      by (rule collect_loop_length)
    ultimately show ?thesis using w ss by (simp add: loop_at_def)
  next
    case False
    with assms(2) have lt: "samplesRead st < numSamples" by simp
    have "loop_at thr eng st ss = collect_loop eng (collect_body eng st s) rest"
      using False lt assms(1) ss by (simp add: loop_at_def wait_loop_skip_at)
    then show ?thesis using collect_loop_length [of eng "collect_body eng st s" rest] ss by simp
  qed
qed

text \<open>
  The Arduino core calls \<open>loop()\<close> again and again. \<open>run_at\<close> does so while readings are
  left; it stops in a state that is halted or faulted, and in one where \<open>loop()\<close> would spin
  without asking for a reading (\<open>samplesRead\<close> above \<open>numSamples\<close>). It gives the state
  and the readings not consumed.
\<close>

function run_at :: "cfloat \<Rightarrow> interpreter \<Rightarrow> sketch \<Rightarrow> sample list \<Rightarrow> sketch \<times> sample list" where
  "run_at thr eng st ss =
     (if status st \<noteq> Running \<or> numSamples < samplesRead st \<or> ss = [] then (st, ss)
      else case loop_at thr eng st ss of (st', rest) \<Rightarrow> run_at thr eng st' rest)"
  by pat_completeness auto

termination
  apply (relation "measure (\<lambda>(thr, eng, st, ss). length ss)")
   apply simp
  subgoal for thr eng st ss x y
    using loop_progress_at [of st ss thr eng] by (cases "loop_at thr eng st ss") auto
  done

declare run_at.simps [simp del]

text \<open>
  What one reading does to the state, whichever loop takes it: the body of the first
  \<open>while\<close> when idle, the body of the second while collecting.
\<close>

definition poll_at :: "cfloat \<Rightarrow> interpreter \<Rightarrow> sketch \<Rightarrow> sample \<Rightarrow> sketch" where
  "poll_at thr eng st s =
     (if status st \<noteq> Running then st
      else if samplesRead st = numSamples
      then (if aSum s \<ge> thr then st\<lparr>samplesRead := 0\<rparr> else st)
      else if samplesRead st < numSamples then collect_body eng st s
      else st)"

subsection \<open>The main loop, one reading at a time, for any threshold\<close>

lemma poll_not_running_at: "status st \<noteq> Running \<Longrightarrow> poll_at thr eng st s = st"
  by (simp add: poll_at_def)

lemma foldl_poll_not_running_at: "status st \<noteq> Running \<Longrightarrow> foldl (poll_at thr eng) st ss = st"
  by (induction ss) (simp_all add: poll_not_running_at)

lemma poll_spin_at: "numSamples < samplesRead st \<Longrightarrow> poll_at thr eng st s = st"
  by (simp add: poll_at_def)

lemma foldl_poll_spin_at: "numSamples < samplesRead st \<Longrightarrow> foldl (poll_at thr eng) st ss = st"
  by (induction ss) (simp_all add: poll_spin_at)

lemma wait_loop_status_at: "status (fst (wait_loop_at thr st ss)) = status st"
  by (induction ss) simp_all

lemma wait_loop_fold_at:
  "status st = Running \<Longrightarrow>
   foldl (poll_at thr eng) (fst (wait_loop_at thr st ss)) (snd (wait_loop_at thr st ss)) = foldl (poll_at thr eng) st ss"
  by (induction ss) (simp_all add: poll_at_def)

lemma collect_loop_fold_at:
  "foldl (poll_at thr eng) (fst (collect_loop eng st ss)) (snd (collect_loop eng st ss))
   = foldl (poll_at thr eng) st ss"
proof (induction ss arbitrary: st)
  case Nil
  show ?case by simp
next
  case (Cons s rest)
  show ?case
  proof (cases "status st = Running \<and> samplesRead st < numSamples")
    case True
    then have a: "status st = Running" and b: "samplesRead st < numSamples" by simp_all
    then have "poll_at thr eng st s = collect_body eng st s" by (simp add: poll_at_def)
    with a b Cons [of "collect_body eng st s"] show ?thesis by simp
  next
    case False
    then have "collect_loop eng st (s # rest) = (st, s # rest)" by auto
    then show ?thesis by simp
  qed
qed

lemma loop_fold_at:
  assumes "status st = Running"
  shows "foldl (poll_at thr eng) (fst (loop_at thr eng st ss)) (snd (loop_at thr eng st ss)) = foldl (poll_at thr eng) st ss"
proof -
  obtain st1 r1 where w: "wait_loop_at thr st ss = (st1, r1)" by (cases "wait_loop_at thr st ss")
  have "foldl (poll_at thr eng) (fst (loop_at thr eng st ss)) (snd (loop_at thr eng st ss)) = foldl (poll_at thr eng) st1 r1"
    using w by (simp add: loop_at_def collect_loop_fold_at)
  also have "\<dots> = foldl (poll_at thr eng) st ss"
    using wait_loop_fold_at [OF assms, of thr eng ss] w by simp
  finally show ?thesis .
qed

lemma run_fold_at: "fst (run_at thr eng st ss) = foldl (poll_at thr eng) st ss"
proof (induction thr eng st ss rule: run_at.induct)
  case (1 thr eng st ss)
  show ?case
  proof (cases "status st \<noteq> Running \<or> numSamples < samplesRead st \<or> ss = []")
    case True
    then show ?thesis
      by (subst run_at.simps) (auto simp: foldl_poll_not_running_at foldl_poll_spin_at)
  next
    case False
    obtain st' rest where l: "loop_at thr eng st ss = (st', rest)" by (cases "loop_at thr eng st ss")
    from False have r: "status st = Running" by simp
    have "fst (run_at thr eng st ss) = fst (run_at thr eng st' rest)"
      using False l by (subst run_at.simps) simp
    also have "\<dots> = foldl (poll_at thr eng) st' rest"
      using "1" [OF False l [symmetric]] .
    also have "\<dots> = foldl (poll_at thr eng) st ss"
      using loop_fold_at [OF r, of thr eng ss] l by simp
    finally show ?thesis .
  qed
qed

lemma run_append_at: "fst (run_at thr eng st (ss @ rs)) = fst (run_at thr eng (fst (run_at thr eng st ss)) rs)"
  by (simp add: run_fold_at)

lemma run_snoc_at: "fst (run_at thr eng st (ss @ [s])) = poll_at thr eng (fst (run_at thr eng st ss)) s"
  by (simp add: run_fold_at)

lemma run_stopped_at: "status st \<noteq> Running \<Longrightarrow> run_at thr eng st ss = (st, ss)"
  by (subst run_at.simps) simp

subsection \<open>The sketch: the loops at \<open>accelerationThreshold\<close>\<close>

text \<open>
  The sketch compares with its constant. \<open>run\<close> and \<open>poll\<close> are \<open>run_at\<close> and \<open>poll_at\<close> at
  \<open>accelerationThreshold\<close>, as \<open>wait_loop\<close> and \<open>loop\<close> are; the equations and the induction
  rule of the loops, and the lemmas above, are restated for them.
\<close>

definition run :: "interpreter \<Rightarrow> sketch \<Rightarrow> sample list \<Rightarrow> sketch \<times> sample list" where
  "run = run_at accelerationThreshold"

definition poll :: "interpreter \<Rightarrow> sketch \<Rightarrow> sample \<Rightarrow> sketch" where
  "poll = poll_at accelerationThreshold"

lemma wait_loop_simps [simp]:
  "wait_loop st [] = (st, [])"
  "wait_loop st (s # rest) =
     (if samplesRead st = numSamples then
        (if aSum s \<ge> accelerationThreshold then (st\<lparr>samplesRead := 0\<rparr>, rest)
         else wait_loop st rest)
      else (st, s # rest))"
  by (simp_all add: wait_loop_def)

lemma loop_unfold:
  "loop eng st ss = (case wait_loop st ss of (st1, rest) \<Rightarrow> collect_loop eng st1 rest)"
  by (simp add: loop_def wait_loop_def loop_at_def)

lemma run_simps:
  "run eng st ss =
     (if status st \<noteq> Running \<or> numSamples < samplesRead st \<or> ss = [] then (st, ss)
      else case loop eng st ss of (st', rest) \<Rightarrow> run eng st' rest)"
  unfolding run_def loop_def by (rule run_at.simps)

lemma run_induct [case_names 1]:
  assumes step: "\<And>eng st ss.
      (\<And>x y. \<not> (status st \<noteq> Running \<or> numSamples < samplesRead st \<or> ss = [])
         \<Longrightarrow> (x, y) = loop eng st ss \<Longrightarrow> P eng x y)
      \<Longrightarrow> P eng st ss"
  shows "P eng st ss"
proof -
  have "thr = accelerationThreshold \<longrightarrow> P eng st ss" for thr
  proof (induction thr eng st ss rule: run_at.induct)
    case (1 thr eng st ss)
    show ?case
    proof
      assume t: "thr = accelerationThreshold"
      show "P eng st ss"
      proof (rule step)
        fix x y
        assume c: "\<not> (status st \<noteq> Running \<or> numSamples < samplesRead st \<or> ss = [])"
          and l: "(x, y) = loop eng st ss"
        from l t have "(x, y) = loop_at thr eng st ss" by (simp add: loop_def)
        from "1" [OF c this] t show "P eng x y" by simp
      qed
    qed
  qed
  then show ?thesis by simp
qed

lemma poll_unfold:
  "poll eng st s =
     (if status st \<noteq> Running then st
      else if samplesRead st = numSamples
      then (if aSum s \<ge> accelerationThreshold then st\<lparr>samplesRead := 0\<rparr> else st)
      else if samplesRead st < numSamples then collect_body eng st s
      else st)"
  by (simp add: poll_def poll_at_def)

lemma wait_loop_length: "length (snd (wait_loop st ss)) \<le> length ss"
  unfolding run_def poll_def loop_def wait_loop_def by (rule wait_loop_length_at)

lemma wait_loop_idle_progress:
  "samplesRead st = numSamples \<Longrightarrow> length (snd (wait_loop st (s # rest))) \<le> length rest"
  unfolding run_def poll_def loop_def wait_loop_def by (rule wait_loop_idle_progress_at)

lemma wait_loop_skip: "samplesRead st \<noteq> numSamples \<Longrightarrow> wait_loop st ss = (st, ss)"
  unfolding run_def poll_def loop_def wait_loop_def by (rule wait_loop_skip_at)

lemma loop_progress:
  assumes "status st = Running" "samplesRead st \<le> numSamples" "ss \<noteq> []"
  shows "length (snd (loop eng st ss)) < length ss"
  using assms unfolding run_def poll_def loop_def wait_loop_def by (rule loop_progress_at)

lemma poll_not_running: "status st \<noteq> Running \<Longrightarrow> poll eng st s = st"
  unfolding run_def poll_def loop_def wait_loop_def by (rule poll_not_running_at)

lemma foldl_poll_not_running: "status st \<noteq> Running \<Longrightarrow> foldl (poll eng) st ss = st"
  unfolding run_def poll_def loop_def wait_loop_def by (rule foldl_poll_not_running_at)

lemma poll_spin: "numSamples < samplesRead st \<Longrightarrow> poll eng st s = st"
  unfolding run_def poll_def loop_def wait_loop_def by (rule poll_spin_at)

lemma foldl_poll_spin: "numSamples < samplesRead st \<Longrightarrow> foldl (poll eng) st ss = st"
  unfolding run_def poll_def loop_def wait_loop_def by (rule foldl_poll_spin_at)

lemma wait_loop_status: "status (fst (wait_loop st ss)) = status st"
  unfolding run_def poll_def loop_def wait_loop_def by (rule wait_loop_status_at)

lemma wait_loop_fold:
  "status st = Running \<Longrightarrow>
   foldl (poll eng) (fst (wait_loop st ss)) (snd (wait_loop st ss)) = foldl (poll eng) st ss"
  unfolding run_def poll_def loop_def wait_loop_def by (rule wait_loop_fold_at)

lemma collect_loop_fold:
  "foldl (poll eng) (fst (collect_loop eng st ss)) (snd (collect_loop eng st ss))
   = foldl (poll eng) st ss"
  unfolding run_def poll_def loop_def wait_loop_def by (rule collect_loop_fold_at)

lemma loop_fold:
  assumes "status st = Running"
  shows "foldl (poll eng) (fst (loop eng st ss)) (snd (loop eng st ss)) = foldl (poll eng) st ss"
  using assms unfolding run_def poll_def loop_def wait_loop_def by (rule loop_fold_at)

lemma run_fold: "fst (run eng st ss) = foldl (poll eng) st ss"
  unfolding run_def poll_def loop_def wait_loop_def by (rule run_fold_at)

lemma run_append: "fst (run eng st (ss @ rs)) = fst (run eng (fst (run eng st ss)) rs)"
  unfolding run_def poll_def loop_def wait_loop_def by (rule run_append_at)

lemma run_snoc: "fst (run eng st (ss @ [s])) = poll eng (fst (run eng st ss)) s"
  unfolding run_def poll_def loop_def wait_loop_def by (rule run_snoc_at)

lemma run_stopped: "status st \<noteq> Running \<Longrightarrow> run eng st ss = (st, ss)"
  unfolding run_def poll_def loop_def wait_loop_def by (rule run_stopped_at)

subsection \<open>Writing a row\<close>

lemma store_Some: "0 \<le> i \<Longrightarrow> i < int (length t) \<Longrightarrow> store t i v = Some (t[nat i := v])"
  by (simp add: store_def)

lemma store_row_Some:
  assumes "0 \<le> n" "n * 3 + 2 < int (length t)"
  shows "store_row t n s
         = Some (t[nat (n * 3) := gyro_x s, nat (n * 3 + 1) := gyro_y s, nat (n * 3 + 2) := gyro_z s])"
  using assms by (simp add: store_row_def store_def)

lemma store_row_None:
  assumes "\<not> (0 \<le> n \<and> n * 3 + 2 < int (length t))"
  shows "store_row t n s = None"
  using assms by (auto simp: store_row_def store_def Option.bind_eq_None_conv split: if_splits)

lemma store_row_length: "store_row t n s = Some t' \<Longrightarrow> length t' = length t"
  by (cases "0 \<le> n \<and> n * 3 + 2 < int (length t)") (auto simp: store_row_Some store_row_None)

lemma store_row_bounds: "store_row t n s = Some t' \<Longrightarrow> 0 \<le> n \<and> n * 3 + 2 < int (length t)"
  by (cases "0 \<le> n \<and> n * 3 + 2 < int (length t)") (auto simp: store_row_None)

lemma update3_take_drop:
  assumes "a + 2 < length t"
  shows "t[a := x, a + 1 := y, a + 2 := z] = take a t @ [x, y, z] @ drop (a + 3) t"
  using assms by (auto simp: list_eq_iff_nth_eq nth_append nth_list_update)

lemma store_row_take_drop:
  assumes "store_row t n s = Some t'"
  shows "t' = take (3 * nat n) t @ gyro_row s @ drop (3 * nat n + 3) t"
proof -
  from store_row_bounds [OF assms] have n: "0 \<le> n" and b: "n * 3 + 2 < int (length t)" by simp_all
  have i: "nat (n * 3) = 3 * nat n" "nat (n * 3 + 1) = 3 * nat n + 1" "nat (n * 3 + 2) = 3 * nat n + 2"
    using n by (simp_all add: nat_mult_distrib nat_add_distrib)
  have "3 * nat n + 2 < length t" using n b by linarith
  from update3_take_drop [OF this] assms show ?thesis
    by (simp add: store_row_Some [OF n b] i gyro_row_def)
qed

subsection \<open>Inference and report\<close>

lemma report_gait_fields [simp]:
  "samplesRead (report_gait st i) = samplesRead st"
  "inputTensor (report_gait st i) = inputTensor st"
  "outputTensor (report_gait st i) = outputTensor st"
  "invoked (report_gait st i) = invoked st"
  by (simp_all add: report_gait_def print_def println_float_def)

lemma foldl_report_gait_fields [simp]:
  "samplesRead (foldl report_gait st js) = samplesRead st"
  "inputTensor (foldl report_gait st js) = inputTensor st"
  "outputTensor (foldl report_gait st js) = outputTensor st"
  "invoked (foldl report_gait st js) = invoked st"
  by (induction js arbitrary: st) simp_all

lemma report_gait_status:
  "status (report_gait st i) = status st \<or> status (report_gait st i) = ReadOutOfBounds"
  by (simp add: report_gait_def print_def println_float_def)

lemma foldl_report_gait_status:
  "status (foldl report_gait st js) = status st \<or> status (foldl report_gait st js) = ReadOutOfBounds"
proof (induction js arbitrary: st)
  case Nil
  show ?case by simp
next
  case (Cons j js)
  from Cons [of "report_gait st j"] report_gait_status [of st j] show ?case by auto
qed

lemma foldl_report_gait_ok:
  assumes "status st = Running" "\<forall>j \<in> set js. j < length (outputTensor st)"
  shows "foldl report_gait st js
         = st\<lparr>serial := serial st @ concat (map (report_line (outputTensor st)) js)\<rparr>"
  using assms
proof (induction js arbitrary: st)
  case Nil
  show ?case by simp
next
  case (Cons j js)
  let ?st1 = "st\<lparr>serial := serial st @ report_line (outputTensor st) j\<rparr>"
  have 1: "report_gait st j = ?st1"
    using Cons.prems by (simp add: report_gait_def print_def println_float_def report_line_def)
  have "foldl report_gait ?st1 js
        = ?st1\<lparr>serial := serial ?st1 @ concat (map (report_line (outputTensor ?st1)) js)\<rparr>"
    using Cons.prems by (intro Cons.IH) simp_all
  with 1 show ?case by simp
qed

lemma run_inference_fields [simp]:
  "samplesRead (run_inference eng st) = samplesRead st"
  "inputTensor (run_inference eng st) = inputTensor st"
  "invoked (run_inference eng st) = invoked st @ [inputTensor st]"
  by (simp_all add: run_inference_def println_def println_empty_def halt_def Let_def
        split: prod.splits)

lemma run_inference_status:
  assumes "status st = Running"
  shows "status (run_inference eng st) \<in> {Running, Halted, ReadOutOfBounds}"
proof -
  obtain rc out where e: "eng (length (invoked st)) (inputTensor st) = (rc, out)"
    by (cases "eng (length (invoked st)) (inputTensor st)")
  let ?st1 = "st\<lparr>invoked := invoked st @ [inputTensor st], outputTensor := out\<rparr>"
  from foldl_report_gait_status [of ?st1 "[0..<NUM_GAITS]"] assms e show ?thesis
    by (auto simp: run_inference_def println_def println_empty_def halt_def Let_def)
qed

lemma run_inference_failed:
  assumes "eng (length (invoked st)) (inputTensor st) = (rc, out)" "rc \<noteq> kTfLiteOk"
  shows "run_inference eng st
         = st\<lparr>invoked := invoked st @ [inputTensor st], outputTensor := out,
               serial := serial st @ [Text ''Invoke failed!'', Newline], status := Halted\<rparr>"
  using assms by (simp add: run_inference_def println_def halt_def)

lemma run_inference_ok:
  assumes "eng (length (invoked st)) (inputTensor st) = (kTfLiteOk, out)"
    and "status st = Running" "NUM_GAITS \<le> length out"
  shows "run_inference eng st
         = st\<lparr>invoked := invoked st @ [inputTensor st], outputTensor := out,
               serial := serial st @ concat (map (report_line out) [0..<NUM_GAITS]) @ [Newline]\<rparr>"
proof -
  let ?st1 = "st\<lparr>invoked := invoked st @ [inputTensor st], outputTensor := out\<rparr>"
  have "foldl report_gait ?st1 [0..<NUM_GAITS]
        = ?st1\<lparr>serial := serial ?st1 @ concat (map (report_line (outputTensor ?st1)) [0..<NUM_GAITS])\<rparr>"
    using assms by (intro foldl_report_gait_ok) auto
  then show ?thesis
    using assms by (simp add: run_inference_def println_empty_def)
qed

subsection \<open>One reading, by cases\<close>

lemma poll_idle:
  assumes "status st = Running" "samplesRead st = numSamples"
  shows "poll eng st s = (if aSum s \<ge> accelerationThreshold then st\<lparr>samplesRead := 0\<rparr> else st)"
  using assms by (simp add: poll_unfold)

lemma poll_collect:
  assumes "status st = Running" "samplesRead st < numSamples"
  shows "poll eng st s = collect_body eng st s"
  using assms by (simp add: poll_unfold)

lemma collect_body_fault:
  "store_row (inputTensor st) (samplesRead st) s = None
   \<Longrightarrow> collect_body eng st s = st\<lparr>status := WriteOutOfBounds\<rparr>"
  by (simp add: collect_body_def)

lemma collect_body_mid:
  "store_row (inputTensor st) (samplesRead st) s = Some t \<Longrightarrow> samplesRead st + 1 \<noteq> numSamples
   \<Longrightarrow> collect_body eng st s = st\<lparr>inputTensor := t, samplesRead := samplesRead st + 1\<rparr>"
  by (simp add: collect_body_def)

lemma collect_body_last:
  "store_row (inputTensor st) (samplesRead st) s = Some t \<Longrightarrow> samplesRead st + 1 = numSamples
   \<Longrightarrow> collect_body eng st s
       = run_inference eng (st\<lparr>inputTensor := t, samplesRead := samplesRead st + 1\<rparr>)"
  by (simp add: collect_body_def)

lemma collect_body_samplesRead:
  "samplesRead (collect_body eng st s) = samplesRead st
   \<or> samplesRead (collect_body eng st s) = samplesRead st + 1"
  by (auto simp: collect_body_def Let_def split: option.splits)

lemma collect_body_length:
  "length (inputTensor (collect_body eng st s)) = length (inputTensor st)"
  by (auto simp: collect_body_def Let_def store_row_length split: option.splits)

lemma poll_samplesRead_range:
  assumes "0 \<le> samplesRead st" "samplesRead st \<le> numSamples"
  shows "0 \<le> samplesRead (poll eng st s) \<and> samplesRead (poll eng st s) \<le> numSamples"
  using assms collect_body_samplesRead [of eng st s] by (auto simp: poll_unfold)

lemma poll_length: "length (inputTensor (poll eng st s)) = length (inputTensor st)"
  by (simp add: poll_unfold collect_body_length)

lemma foldl_poll_range:
  assumes "0 \<le> samplesRead st" "samplesRead st \<le> numSamples"
  shows "0 \<le> samplesRead (foldl (poll eng) st ss) \<and> samplesRead (foldl (poll eng) st ss) \<le> numSamples"
  using assms by (induction ss rule: rev_induct) (simp_all add: poll_samplesRead_range)

lemma foldl_poll_length: "length (inputTensor (foldl (poll eng) st ss)) = length (inputTensor st)"
  by (induction ss rule: rev_induct) (simp_all add: poll_length)

subsection \<open>Faults and the frame of the writes\<close>

lemma poll_status_idle:
  "status st = Running \<Longrightarrow> samplesRead st = numSamples \<Longrightarrow> status (poll eng st s) = Running"
  by (simp add: poll_idle)

lemma collect_body_no_write_fault:
  assumes "status st = Running" "0 \<le> samplesRead st" "samplesRead st < numSamples"
    and "3 * numSamples \<le> int (length (inputTensor st))"
  shows "status (collect_body eng st s) \<noteq> WriteOutOfBounds"
proof -
  have b: "samplesRead st * 3 + 2 < int (length (inputTensor st))" using assms by linarith
  let ?t = "(inputTensor st)[nat (samplesRead st * 3) := gyro_x s,
              nat (samplesRead st * 3 + 1) := gyro_y s, nat (samplesRead st * 3 + 2) := gyro_z s]"
  let ?st1 = "st\<lparr>inputTensor := ?t, samplesRead := samplesRead st + 1\<rparr>"
  have r: "store_row (inputTensor st) (samplesRead st) s = Some ?t"
    using assms(2) b by (rule store_row_Some)
  show ?thesis
  proof (cases "samplesRead st + 1 = numSamples")
    case True
    have "status ?st1 = Running" using assms(1) by simp
    from run_inference_status [OF this, of eng] collect_body_last [OF r True, of eng]
    show ?thesis by auto
  next
    case False
    from collect_body_mid [OF r False, of eng] assms(1) show ?thesis by simp
  qed
qed

lemma poll_no_write_fault:
  assumes "status st \<noteq> WriteOutOfBounds" "0 \<le> samplesRead st"
    and "3 * numSamples \<le> int (length (inputTensor st))"
  shows "status (poll eng st s) \<noteq> WriteOutOfBounds"
proof (cases "status st = Running")
  case False
  with assms(1) show ?thesis by (simp add: poll_not_running)
next
  case True
  consider "samplesRead st = numSamples" | "samplesRead st < numSamples" | "numSamples < samplesRead st"
    by linarith
  then show ?thesis
  proof cases
    case 1
    with True show ?thesis by (simp add: poll_idle)
  next
    case 2
    with True assms collect_body_no_write_fault [of st eng s] show ?thesis by (simp add: poll_collect)
  next
    case 3
    with True show ?thesis by (simp add: poll_spin)
  qed
qed

lemma foldl_poll_no_write_fault:
  assumes "status st \<noteq> WriteOutOfBounds" "0 \<le> samplesRead st" "samplesRead st \<le> numSamples"
    and "3 * numSamples \<le> int (length (inputTensor st))"
  shows "status (foldl (poll eng) st ss) \<noteq> WriteOutOfBounds"
  using assms
proof (induction ss rule: rev_induct)
  case Nil
  then show ?case by simp
next
  case (snoc s ss)
  then have "status (foldl (poll eng) st ss) \<noteq> WriteOutOfBounds" by simp
  moreover have "0 \<le> samplesRead (foldl (poll eng) st ss)"
    using foldl_poll_range [OF snoc.prems(2,3)] by simp
  moreover have "3 * numSamples \<le> int (length (inputTensor (foldl (poll eng) st ss)))"
    using snoc.prems(4) by (simp add: foldl_poll_length)
  ultimately show ?case by (simp add: poll_no_write_fault)
qed

lemma store_row_drop:
  assumes "store_row t n s = Some t'" "n * 3 + 3 \<le> int k"
  shows "drop k t' = drop k t"
proof -
  from store_row_bounds [OF assms(1)] have n: "0 \<le> n" and b: "n * 3 + 2 < int (length t)" by simp_all
  have k: "3 * nat n + 3 \<le> k" using n assms(2) by linarith
  have l: "3 * nat n + 3 \<le> length t" using n b by linarith
  let ?A = "take (3 * nat n) t @ gyro_row s"
  have la: "length ?A = 3 * nat n + 3" using l by (simp add: gyro_row_def)
  have "drop k t' = drop k (?A @ drop (3 * nat n + 3) t)"
    using store_row_take_drop [OF assms(1)] by simp
  also have "\<dots> = drop (k - length ?A) (drop (3 * nat n + 3) t)"
    using k la by (simp del: append_assoc)
  also have "\<dots> = drop k t" using k la by simp
  finally show ?thesis .
qed

lemma collect_body_drop:
  assumes "samplesRead st < numSamples"
  shows "drop (nat (3 * numSamples)) (inputTensor (collect_body eng st s))
         = drop (nat (3 * numSamples)) (inputTensor st)"
proof (cases "store_row (inputTensor st) (samplesRead st) s")
  case None
  then show ?thesis by (simp add: collect_body_fault)
next
  case (Some t)
  have "samplesRead st * 3 + 3 \<le> int (nat (3 * numSamples))" using assms by linarith
  from store_row_drop [OF Some this] Some show ?thesis
    by (cases "samplesRead st + 1 = numSamples") (simp_all add: collect_body_last collect_body_mid)
qed

lemma poll_drop:
  "drop (nat (3 * numSamples)) (inputTensor (poll eng st s))
   = drop (nat (3 * numSamples)) (inputTensor st)"
  by (simp add: poll_unfold collect_body_drop)

lemma foldl_poll_drop:
  "drop (nat (3 * numSamples)) (inputTensor (foldl (poll eng) st ss))
   = drop (nat (3 * numSamples)) (inputTensor st)"
  by (induction ss rule: rev_induct) (simp_all add: poll_drop)

subsection \<open>The state after \<open>setup\<close>\<close>

lemma setup_samplesRead: "samplesRead (setup_sketch b m) = numSamples"
  by (simp add: setup_sketch_def globals_def halt_def println_def print_def println_empty_def Let_def)

lemma setup_invoked: "invoked (setup_sketch b m) = []"
  by (simp add: setup_sketch_def globals_def halt_def println_def print_def println_empty_def Let_def)

lemma setup_status:
  "status (setup_sketch b m) = (if b \<and> version m = TFLITE_SCHEMA_VERSION then Running else Halted)"
  by (simp add: setup_sketch_def globals_def halt_def println_def print_def println_empty_def Let_def)

lemma setup_inputTensor:
  "inputTensor (setup_sketch b m)
   = (if b \<and> version m = TFLITE_SCHEMA_VERSION then replicate (input_floats m) 0 else [])"
  by (simp add: setup_sketch_def globals_def halt_def println_def print_def println_empty_def Let_def)

lemma aSum_nonneg: "0 \<le> aSum s"
  by (simp add: aSum_def)

lemma setup_range:
  "0 \<le> samplesRead (setup_sketch b m) \<and> samplesRead (setup_sketch b m) \<le> numSamples"
  by (simp add: setup_samplesRead numSamples_def)

lemma reach_range:
  "0 \<le> samplesRead (fst (run eng (setup_sketch b m) ss))
   \<and> samplesRead (fst (run eng (setup_sketch b m) ss)) \<le> numSamples"
  using setup_range [of b m] by (simp add: run_fold foldl_poll_range)

lemma poll_input_unchanged:
  "\<not> (status st = Running \<and> samplesRead st < numSamples)
   \<Longrightarrow> inputTensor (poll eng st s) = inputTensor st"
  by (auto simp: poll_unfold)

lemma collect_body_increment:
  "status st = Running \<Longrightarrow> status (collect_body eng st s) \<noteq> WriteOutOfBounds
   \<Longrightarrow> samplesRead (collect_body eng st s) = samplesRead st + 1"
  by (auto simp: collect_body_def Let_def split: option.splits)

subsection \<open>The window while it is filled\<close>

lemma flatten_append [simp]: "flatten (xs @ ys) = flatten xs @ flatten ys"
  by (simp add: flatten_def)

lemma flatten_Nil [simp]: "flatten [] = []"
  by (simp add: flatten_def)

lemma flatten_single [simp]: "flatten [s] = gyro_row s"
  by (simp add: flatten_def)

lemma length_gyro_row [simp]: "length (gyro_row s) = 3"
  by (simp add: gyro_row_def)

lemma length_flatten [simp]: "length (flatten xs) = 3 * length xs"
  by (induction xs) (simp_all add: flatten_def)

lemma store_row_take:
  assumes "store_row t n s = Some t'"
  shows "take (3 * nat n + 3) t' = take (3 * nat n) t @ gyro_row s"
proof -
  from store_row_bounds [OF assms] have n: "0 \<le> n" and b: "n * 3 + 2 < int (length t)" by simp_all
  have l: "3 * nat n \<le> length t" using n b by linarith
  let ?A = "take (3 * nat n) t @ gyro_row s"
  have la: "length ?A = 3 * nat n + 3" using l by simp
  have "t' = ?A @ drop (3 * nat n + 3) t"
    using store_row_take_drop [OF assms] by simp
  moreover from la have "take (3 * nat n + 3) (?A @ drop (3 * nat n + 3) t) = ?A"
    by (metis append_eq_conv_conj)
  ultimately show ?thesis by simp
qed

text \<open>
  What a running state that collects owes to the readings that led to it: the rows written
  so far are those of the last \<open>samplesRead\<close> readings, and the reading before them was
  taken idle and reached the threshold.
\<close>

definition filled :: "interpreter \<Rightarrow> sketch \<Rightarrow> sample list \<Rightarrow> bool" where
  "filled eng st0 ss \<longleftrightarrow>
     (let st = foldl (poll eng) st0 ss; n = nat (samplesRead st); j = length ss - n
      in n < length ss
         \<and> take (3 * n) (inputTensor st) = flatten (drop j ss)
         \<and> status (foldl (poll eng) st0 (take (j - 1) ss)) = Running
         \<and> samplesRead (foldl (poll eng) st0 (take (j - 1) ss)) = numSamples
         \<and> aSum (ss ! (j - 1)) \<ge> accelerationThreshold
         \<and> samplesRead (foldl (poll eng) st0 (take j ss)) = 0)"

lemma filled_start:
  assumes "status (foldl (poll eng) st0 ss) = Running"
    and "samplesRead (foldl (poll eng) st0 ss) = numSamples"
    and "aSum s \<ge> accelerationThreshold"
  shows "filled eng st0 (ss @ [s])"
  using assms by (simp add: filled_def poll_idle)

lemma filled_step:
  assumes f: "filled eng st0 ss"
    and r: "status (foldl (poll eng) st0 ss) = Running"
    and c: "0 \<le> samplesRead (foldl (poll eng) st0 ss)"
           "samplesRead (foldl (poll eng) st0 ss) + 1 < numSamples"
    and w: "store_row (inputTensor (foldl (poll eng) st0 ss)) (samplesRead (foldl (poll eng) st0 ss)) s
            = Some t"
  shows "filled eng st0 (ss @ [s])"
proof -
  let ?p = "foldl (poll eng) st0 ss"
  let ?n = "nat (samplesRead ?p)"
  let ?j = "length ss - ?n"
  have st: "foldl (poll eng) st0 (ss @ [s]) = ?p\<lparr>inputTensor := t, samplesRead := samplesRead ?p + 1\<rparr>"
    using r c w by (simp add: poll_collect collect_body_mid)
  let ?q = "foldl (poll eng) st0 (ss @ [s])"
  have n1: "nat (samplesRead ?q) = ?n + 1" using c by (simp add: st del: foldl_append)
  from f have a: "?n < length ss"
    and b: "take (3 * ?n) (inputTensor ?p) = flatten (drop ?j ss)"
    and d: "status (foldl (poll eng) st0 (take (?j - 1) ss)) = Running"
           "samplesRead (foldl (poll eng) st0 (take (?j - 1) ss)) = numSamples"
           "aSum (ss ! (?j - 1)) \<ge> accelerationThreshold"
           "samplesRead (foldl (poll eng) st0 (take ?j ss)) = 0"
    by (simp_all add: filled_def Let_def)
  have j: "length (ss @ [s]) - (?n + 1) = ?j" by simp
  have tq: "inputTensor ?q = t" by (simp add: st del: foldl_append)
  have jl: "?j \<le> length ss" "?j - 1 < length ss" using a by simp_all
  have "take (3 * (?n + 1)) t = take (3 * ?n) (inputTensor ?p) @ gyro_row s"
    using store_row_take [OF w] c by (simp add: algebra_simps)
  with b have e: "take (3 * (?n + 1)) t = flatten (drop ?j (ss @ [s]))"
    using jl by simp
  have g: "take ?j (ss @ [s]) = take ?j ss" "take (?j - 1) (ss @ [s]) = take (?j - 1) ss"
    using jl by simp_all
  have h: "(ss @ [s]) ! (?j - 1) = ss ! (?j - 1)" using jl by (simp add: nth_append)
  have "?n + 1 < length (ss @ [s])" using a by simp
  with e d show ?thesis
    unfolding filled_def Let_def n1 j tq g h by blast
qed

lemma filled_invariant:
  assumes i: "samplesRead st0 = numSamples"
    and r: "status (foldl (poll eng) st0 ss) = Running"
    and c: "samplesRead (foldl (poll eng) st0 ss) < numSamples"
  shows "filled eng st0 ss"
  using r c
proof (induction ss rule: rev_induct)
  case Nil
  with i show ?case by simp
next
  case (snoc s ss)
  let ?p = "foldl (poll eng) st0 ss"
  have st: "foldl (poll eng) st0 (ss @ [s]) = poll eng ?p s" by simp
  have range: "0 \<le> samplesRead ?p" "samplesRead ?p \<le> numSamples"
    using foldl_poll_range [of st0 eng ss] i by (simp_all add: numSamples_def)
  have run: "status ?p = Running"
    using snoc.prems(1) poll_not_running [of ?p eng s] unfolding st by (cases "status ?p = Running") auto
  show ?case
  proof (cases "samplesRead ?p = numSamples")
    case True
    with snoc.prems run have "aSum s \<ge> accelerationThreshold"
      unfolding st by (auto simp: poll_idle split: if_splits)
    from filled_start [OF run True this] show ?thesis .
  next
    case False
    with range have lt: "samplesRead ?p < numSamples" by simp
    have cb: "poll eng ?p s = collect_body eng ?p s" using run lt by (rule poll_collect)
    obtain t where w: "store_row (inputTensor ?p) (samplesRead ?p) s = Some t"
      using snoc.prems(1) unfolding st cb
      by (cases "store_row (inputTensor ?p) (samplesRead ?p) s") (auto simp: collect_body_fault)
    have nl: "samplesRead ?p + 1 \<noteq> numSamples"
    proof
      assume l: "samplesRead ?p + 1 = numSamples"
      from snoc.prems(2) have "samplesRead (collect_body eng ?p s) < numSamples"
        unfolding st cb .
      with collect_body_last [OF w l, of eng] l show False by simp
    qed
    with lt have "samplesRead ?p + 1 < numSamples" by simp
    from filled_step [OF snoc.IH [OF run lt] run range(1) this w] show ?thesis .
  qed
qed

subsection \<open>When the interpreter is called\<close>

lemma poll_invoked:
  "invoked (poll eng st s)
   = (if status st = Running \<and> samplesRead st + 1 = numSamples
         \<and> store_row (inputTensor st) (samplesRead st) s \<noteq> None
      then invoked st @ [the (store_row (inputTensor st) (samplesRead st) s)]
      else invoked st)"
proof (cases "status st = Running \<and> samplesRead st < numSamples")
  case False
  then show ?thesis by (auto simp: poll_unfold)
next
  case True
  then have p: "poll eng st s = collect_body eng st s" by (simp add: poll_collect)
  show ?thesis
  proof (cases "store_row (inputTensor st) (samplesRead st) s")
    case None
    then show ?thesis by (simp add: p collect_body_fault)
  next
    case (Some t)
    show ?thesis
    proof (cases "samplesRead st + 1 = numSamples")
      case False
      with Some show ?thesis by (simp add: p collect_body_mid)
    next
      case last: True
      from collect_body_last [OF Some last, of eng] True last Some show ?thesis
        by (simp add: p)
    qed
  qed
qed

lemma poll_inputTensor:
  "inputTensor (poll eng st s)
   = (if status st = Running \<and> samplesRead st < numSamples
         \<and> store_row (inputTensor st) (samplesRead st) s \<noteq> None
      then the (store_row (inputTensor st) (samplesRead st) s)
      else inputTensor st)"
  by (auto simp: poll_unfold collect_body_def Let_def split: option.splits)

lemma poll_write_fault:
  "status st = Running \<Longrightarrow> samplesRead st < numSamples \<Longrightarrow>
   (status (poll eng st s) = WriteOutOfBounds)
   = (store_row (inputTensor st) (samplesRead st) s = None)"
proof (cases "store_row (inputTensor st) (samplesRead st) s")
  case None
  assume "status st = Running" "samplesRead st < numSamples"
  with None show ?thesis by (simp add: poll_collect collect_body_fault)
next
  case (Some t)
  assume a: "status st = Running" "samplesRead st < numSamples"
  let ?st1 = "st\<lparr>inputTensor := t, samplesRead := samplesRead st + 1\<rparr>"
  have "status ?st1 = Running" using a by simp
  from run_inference_status [OF this, of eng] a Some show ?thesis
    by (cases "samplesRead st + 1 = numSamples")
       (auto simp: poll_collect collect_body_last collect_body_mid)
qed

lemma window_complete:
  assumes i: "samplesRead st0 = numSamples"
    and r: "status (foldl (poll eng) st0 ss) = Running"
    and c: "samplesRead (foldl (poll eng) st0 ss) + 1 = numSamples"
    and w: "store_row (inputTensor (foldl (poll eng) st0 ss)) (samplesRead (foldl (poll eng) st0 ss)) s
            = Some t"
  shows "199 < length ss \<and> take 600 t = flatten (drop (length ss - 199) (ss @ [s]))"
proof -
  let ?p = "foldl (poll eng) st0 ss"
  have n: "samplesRead ?p = 199" using c by (simp add: numSamples_def)
  then have "samplesRead ?p < numSamples" by (simp add: numSamples_def)
  from filled_invariant [OF i r this]
  have a: "199 < length ss" and b: "take 597 (inputTensor ?p) = flatten (drop (length ss - 199) ss)"
    by (simp_all add: filled_def Let_def n)
  from store_row_take [OF w] have "take 600 t = take 597 (inputTensor ?p) @ gyro_row s"
    by (simp add: n)
  with a b show ?thesis by simp
qed

lemma invoked_windows:
  assumes i: "samplesRead st0 = numSamples" and e: "invoked st0 = []"
  shows "\<forall>w \<in> set (invoked (foldl (poll eng) st0 ss)).
           length w = length (inputTensor st0)
           \<and> (\<exists>k. k + 200 \<le> length ss \<and> take 600 w = flatten (take 200 (drop k ss)))"
proof (induction ss rule: rev_induct)
  case Nil
  with e show ?case by simp
next
  case (snoc s ss)
  let ?p = "foldl (poll eng) st0 ss"
  have old: "length w = length (inputTensor st0)
             \<and> (\<exists>k. k + 200 \<le> length (ss @ [s]) \<and> take 600 w = flatten (take 200 (drop k (ss @ [s]))))"
    if "w \<in> set (invoked ?p)" for w
  proof -
    from snoc that obtain k where l: "length w = length (inputTensor st0)"
      and k: "k + 200 \<le> length ss" "take 600 w = flatten (take 200 (drop k ss))" by blast
    from k(1) have "take 200 (drop k (ss @ [s])) = take 200 (drop k ss)" by simp
    with k l show ?thesis by (intro conjI exI [of _ k]) simp_all
  qed
  show ?case
  proof (cases "status ?p = Running \<and> samplesRead ?p + 1 = numSamples
                \<and> store_row (inputTensor ?p) (samplesRead ?p) s \<noteq> None")
    case False
    then have "invoked (foldl (poll eng) st0 (ss @ [s])) = invoked ?p"
      by (simp add: poll_invoked)
    with old show ?thesis by simp
  next
    case True
    then obtain t where t: "store_row (inputTensor ?p) (samplesRead ?p) s = Some t" by auto
    from True t have inv: "invoked (foldl (poll eng) st0 (ss @ [s])) = invoked ?p @ [t]"
      by (simp add: poll_invoked)
    from True have r: "status ?p = Running" and c: "samplesRead ?p + 1 = numSamples" by simp_all
    from window_complete [OF i r c t]
    have a: "199 < length ss" and b: "take 600 t = flatten (drop (length ss - 199) (ss @ [s]))"
      by simp_all
    have "length t = length (inputTensor st0)"
      using store_row_length [OF t] by (simp add: foldl_poll_length)
    moreover have "length ss - 199 + 200 \<le> length (ss @ [s])" using a by simp
    moreover have "take 200 (drop (length ss - 199) (ss @ [s])) = drop (length ss - 199) (ss @ [s])"
      using a by simp
    ultimately have new: "length t = length (inputTensor st0)
             \<and> (\<exists>k. k + 200 \<le> length (ss @ [s]) \<and> take 600 t = flatten (take 200 (drop k (ss @ [s]))))"
      using b by (intro conjI exI [of _ "length ss - 199"]) simp_all
    show ?thesis unfolding inv using old new by auto
  qed
qed

subsection \<open>A whole episode\<close>

lemma collect_many:
  assumes "status st = Running" "0 \<le> samplesRead st"
    and "samplesRead st + int (length rs) < numSamples"
    and "3 * numSamples \<le> int (length (inputTensor st))"
  shows "status (foldl (poll eng) st rs) = Running
         \<and> samplesRead (foldl (poll eng) st rs) = samplesRead st + int (length rs)
         \<and> invoked (foldl (poll eng) st rs) = invoked st
         \<and> serial (foldl (poll eng) st rs) = serial st"
  using assms
proof (induction rs arbitrary: st)
  case Nil
  then show ?case by simp
next
  case (Cons r rs)
  have b: "samplesRead st * 3 + 2 < int (length (inputTensor st))" using Cons.prems by linarith
  from store_row_Some [OF Cons.prems(2) b, of r]
  obtain t where t: "store_row (inputTensor st) (samplesRead st) r = Some t" by blast
  have lt: "samplesRead st < numSamples" and nl: "samplesRead st + 1 \<noteq> numSamples"
    using Cons.prems(3) by simp_all
  let ?st1 = "st\<lparr>inputTensor := t, samplesRead := samplesRead st + 1\<rparr>"
  have p: "poll eng st r = ?st1"
    using Cons.prems(1) lt t nl by (simp add: poll_collect collect_body_mid)
  have "status (foldl (poll eng) ?st1 rs) = Running
         \<and> samplesRead (foldl (poll eng) ?st1 rs) = samplesRead ?st1 + int (length rs)
         \<and> invoked (foldl (poll eng) ?st1 rs) = invoked ?st1
         \<and> serial (foldl (poll eng) ?st1 rs) = serial ?st1"
    using Cons.prems store_row_length [OF t] by (intro Cons.IH) simp_all
  then show ?case by (simp add: p)
qed

lemma ready_after_199:
  assumes "status st = Running" "samplesRead st = numSamples"
    and "3 * numSamples \<le> int (length (inputTensor st))"
    and "aSum t \<ge> accelerationThreshold" "length rs = 199"
  shows "status (foldl (poll eng) st (t # rs)) = Running
         \<and> samplesRead (foldl (poll eng) st (t # rs)) = 199
         \<and> invoked (foldl (poll eng) st (t # rs)) = invoked st
         \<and> serial (foldl (poll eng) st (t # rs)) = serial st"
proof -
  let ?st1 = "st\<lparr>samplesRead := 0\<rparr>"
  have p: "poll eng st t = ?st1" using assms by (simp add: poll_idle)
  have "status (foldl (poll eng) ?st1 rs) = Running
         \<and> samplesRead (foldl (poll eng) ?st1 rs) = samplesRead ?st1 + int (length rs)
         \<and> invoked (foldl (poll eng) ?st1 rs) = invoked ?st1
         \<and> serial (foldl (poll eng) ?st1 rs) = serial ?st1"
    using assms by (intro collect_many) (simp_all add: numSamples_def)
  then show ?thesis using assms(5) by (simp add: p)
qed

lemma last_reading:
  assumes "status p = Running" "samplesRead p = 199" "600 \<le> length (inputTensor p)"
  shows "poll eng p s
         = run_inference eng
             (p\<lparr>inputTensor := (inputTensor p)[597 := gyro_x s, 598 := gyro_y s, 599 := gyro_z s],
                samplesRead := 200\<rparr>)"
proof -
  have "store_row (inputTensor p) (samplesRead p) s
        = Some ((inputTensor p)[597 := gyro_x s, 598 := gyro_y s, 599 := gyro_z s])"
    using assms store_row_Some [of "samplesRead p" "inputTensor p" s] by simp
  from collect_body_last [OF this, of eng] assms show ?thesis
    by (simp add: poll_collect numSamples_def)
qed

text \<open>The state in which the sketch with the model of the spec's shape starts.\<close>

lemma gait_setup:
  "status (setup_sketch True gait_model) = Running"
  "samplesRead (setup_sketch True gait_model) = numSamples"
  "length (inputTensor (setup_sketch True gait_model)) = 600"
  "invoked (setup_sketch True gait_model) = []"
  by (simp_all add: setup_status setup_samplesRead setup_inputTensor setup_invoked gait_model_def)

lemma gait_ready:
  "status (fst (run eng (setup_sketch True gait_model) almost)) = Running"
  "samplesRead (fst (run eng (setup_sketch True gait_model) almost)) = 199"
  "invoked (fst (run eng (setup_sketch True gait_model) almost)) = []"
  "length (inputTensor (fst (run eng (setup_sketch True gait_model) almost))) = 600"
proof -
  have "status (foldl (poll eng) (setup_sketch True gait_model) (quiet # replicate 199 quiet)) = Running
         \<and> samplesRead (foldl (poll eng) (setup_sketch True gait_model) (quiet # replicate 199 quiet)) = 199
         \<and> invoked (foldl (poll eng) (setup_sketch True gait_model) (quiet # replicate 199 quiet))
             = invoked (setup_sketch True gait_model)
         \<and> serial (foldl (poll eng) (setup_sketch True gait_model) (quiet # replicate 199 quiet))
             = serial (setup_sketch True gait_model)"
    using aSum_nonneg [of quiet]
    by (intro ready_after_199) (simp_all add: gait_setup numSamples_def accelerationThreshold_def)
  then show
    "status (fst (run eng (setup_sketch True gait_model) almost)) = Running"
    "samplesRead (fst (run eng (setup_sketch True gait_model) almost)) = 199"
    "invoked (fst (run eng (setup_sketch True gait_model) almost)) = []"
    by (simp_all add: run_fold gait_setup almost_def)
  show "length (inputTensor (fst (run eng (setup_sketch True gait_model) almost))) = 600"
    by (simp only: run_fold foldl_poll_length gait_setup)
qed

lemma gait_no_write_fault:
  "status (fst (run eng (setup_sketch True gait_model) ss)) \<noteq> WriteOutOfBounds"
  unfolding run_fold
  by (rule foldl_poll_no_write_fault) (simp_all add: gait_setup numSamples_def)

lemma gait_invoked:
  "invoked (fst (run eng (setup_sketch True gait_model) (almost @ [quiet])))
   = invoked (fst (run eng (setup_sketch True gait_model) almost))
     @ [inputTensor (fst (run eng (setup_sketch True gait_model) (almost @ [quiet])))]"
proof -
  let ?st = "fst (run eng (setup_sketch True gait_model) almost)"
  have r: "status ?st = Running" and lt: "samplesRead ?st < numSamples"
    and c: "samplesRead ?st + 1 = numSamples"
    by (simp_all add: gait_ready numSamples_def)
  have "status (poll eng ?st quiet) \<noteq> WriteOutOfBounds"
    using gait_no_write_fault [of eng "almost @ [quiet]"] by (simp add: run_snoc)
  with poll_write_fault [OF r lt, of eng quiet]
  have "store_row (inputTensor ?st) (samplesRead ?st) quiet \<noteq> None" by simp
  with r lt c show ?thesis
    by (simp only: run_snoc poll_invoked poll_inputTensor) simp
qed

subsection \<open>Readings between two calls of the interpreter\<close>

lemma foldl_poll_invoked_stopped:
  "status st \<noteq> Running \<Longrightarrow> invoked (foldl (poll eng) st rs) = invoked st"
  by (simp add: foldl_poll_not_running)

lemma no_invoke_within:
  assumes "0 \<le> samplesRead st" "samplesRead st \<le> numSamples"
    and "int (length rs) < (if samplesRead st = numSamples then numSamples + 1
                             else numSamples - samplesRead st)"
  shows "invoked (foldl (poll eng) st rs) = invoked st"
  using assms
proof (induction rs arbitrary: st)
  case Nil
  show ?case by simp
next
  case (Cons r rs)
  show ?case
  proof (cases "status st = Running")
    case False
    then show ?thesis by (rule foldl_poll_invoked_stopped)
  next
    case True
    let ?st1 = "poll eng st r"
    have nl: "samplesRead st + 1 \<noteq> numSamples"
      using Cons.prems by (auto split: if_splits)
    then have i1: "invoked ?st1 = invoked st" by (simp add: poll_invoked)
    show ?thesis
    proof (cases "status ?st1 = Running")
      case False
      from foldl_poll_invoked_stopped [OF this, of eng rs] i1 show ?thesis by simp
    next
      case r1: True
      have range1: "0 \<le> samplesRead ?st1" "samplesRead ?st1 \<le> numSamples"
        using poll_samplesRead_range [OF Cons.prems(1,2), of eng r] by simp_all
      have "int (length rs) < (if samplesRead ?st1 = numSamples then numSamples + 1
                               else numSamples - samplesRead ?st1)"
      proof (cases "samplesRead st = numSamples")
        case idle: True
        then have "samplesRead ?st1 = numSamples \<or> samplesRead ?st1 = 0"
          using True by (simp add: poll_idle)
        with Cons.prems(3) idle show ?thesis by (auto simp: numSamples_def)
      next
        case False
        with Cons.prems(2) have lt: "samplesRead st < numSamples" by simp
        have "status ?st1 \<noteq> WriteOutOfBounds" using r1 by simp
        then have "samplesRead ?st1 = samplesRead st + 1"
          using True lt by (simp add: poll_collect collect_body_increment)
        with Cons.prems(3) False nl show ?thesis by auto
      qed
      from Cons.IH [OF range1 this] i1 show ?thesis by simp
    qed
  qed
qed

lemma poll_acceleration_ignored:
  "samplesRead st \<noteq> numSamples
   \<Longrightarrow> poll eng st (s\<lparr>acc_x := a1, acc_y := a2, acc_z := a3\<rparr>) = poll eng st s"
  by (simp add: poll_unfold collect_body_def store_row_def)

subsection \<open>Rows of the tensor\<close>

lemma flatten_Cons: "flatten (x # xs) = gyro_row x @ flatten xs"
  by (simp add: flatten_def)

lemma flatten_nth:
  assumes "i < length xs"
  shows "flatten xs ! (3 * i) = gyro_x (xs ! i)
         \<and> flatten xs ! (3 * i + 1) = gyro_y (xs ! i)
         \<and> flatten xs ! (3 * i + 2) = gyro_z (xs ! i)"
  using assms
proof (induction xs arbitrary: i)
  case Nil
  then show ?case by simp
next
  case (Cons x xs)
  show ?case
  proof (cases i)
    case 0
    then show ?thesis by (simp add: flatten_Cons gyro_row_def)
  next
    case (Suc k)
    with Cons.prems have k: "k < length xs" by simp
    have "(gyro_row x @ flatten xs) ! (3 + m) = flatten xs ! m" for m
      by (simp add: nth_append)
    from this [of "3 * k"] this [of "3 * k + 1"] this [of "3 * k + 2"] Cons.IH [OF k] Suc
    show ?thesis by (simp add: flatten_Cons add.assoc)
  qed
qed

lemma store_row_nth:
  assumes "store_row t n s = Some t'"
  shows "t' ! (3 * nat n) = gyro_x s \<and> t' ! (3 * nat n + 1) = gyro_y s
         \<and> t' ! (3 * nat n + 2) = gyro_z s
         \<and> take (3 * nat n) t' = take (3 * nat n) t
         \<and> drop (3 * nat n + 3) t' = drop (3 * nat n + 3) t"
proof -
  from store_row_bounds [OF assms] have n: "0 \<le> n" and b: "n * 3 + 2 < int (length t)" by simp_all
  have l: "3 * nat n + 2 < length t" using n b by linarith
  have i: "nat (n * 3) = 3 * nat n" "nat (n * 3 + 1) = 3 * nat n + 1" "nat (n * 3 + 2) = 3 * nat n + 2"
    using n by (simp_all add: nat_mult_distrib nat_add_distrib)
  have "t' = t[3 * nat n := gyro_x s, 3 * nat n + 1 := gyro_y s, 3 * nat n + 2 := gyro_z s]"
    using assms store_row_Some [OF n b, of s] by (simp add: i)
  with l show ?thesis by simp
qed

lemma gait_done:
  "status (fst (run zero_scores (setup_sketch True gait_model) (almost @ [quiet]))) = Running"
proof -
  let ?st = "fst (run zero_scores (setup_sketch True gait_model) almost)"
  let ?st1 = "?st\<lparr>inputTensor := (inputTensor ?st)[597 := gyro_x quiet, 598 := gyro_y quiet,
                                                     599 := gyro_z quiet],
                  samplesRead := 200\<rparr>"
  have p: "poll zero_scores ?st quiet = run_inference zero_scores ?st1"
    by (rule last_reading) (simp_all add: gait_ready)
  have e: "zero_scores (length (invoked ?st1)) (inputTensor ?st1) = (kTfLiteOk, replicate 6 0)"
    by (simp add: zero_scores_def)
  have r: "status ?st1 = Running" by (simp add: gait_ready)
  have l: "NUM_GAITS \<le> length (replicate 6 (0 :: cfloat))" by (simp add: NUM_GAITS_def)
  from run_inference_ok [of zero_scores ?st1 "replicate 6 0", OF e r l] r
  have "status (run_inference zero_scores ?st1) = Running" by simp
  then show ?thesis by (simp only: run_snoc p)
qed

subsection \<open>Readings that arrive later\<close>

lemma wait_loop_append:
  "wait_loop st (xs @ ys)
   = wait_loop (fst (wait_loop st xs)) (snd (wait_loop st xs) @ ys)"
proof (induction xs)
  case Nil
  show ?case by simp
next
  case (Cons x xs)
  have z: "samplesRead (st\<lparr>samplesRead := 0\<rparr>) \<noteq> numSamples" by (simp add: numSamples_def)
  show ?case
  proof (cases "samplesRead st = numSamples")
    case True
    with Cons wait_loop_skip [OF z] show ?thesis by simp
  next
    case False
    then show ?thesis by (simp add: wait_loop_skip)
  qed
qed

lemma collect_loop_append:
  "collect_loop eng st (xs @ ys)
   = collect_loop eng (fst (collect_loop eng st xs)) (snd (collect_loop eng st xs) @ ys)"
proof (induction xs arbitrary: st)
  case Nil
  show ?case by simp
next
  case (Cons x xs)
  show ?case
  proof (cases "status st = Running \<and> samplesRead st < numSamples")
    case True
    then have "collect_loop eng st ((x # xs) @ ys) = collect_loop eng (collect_body eng st x) (xs @ ys)"
      and "collect_loop eng st (x # xs) = collect_loop eng (collect_body eng st x) xs"
      by simp_all
    with Cons [of "collect_body eng st x"] show ?thesis by simp
  next
    case False
    then have "collect_loop eng st (x # zs) = (st, x # zs)" for zs by auto
    from this [of xs] this [of "xs @ ys"] show ?thesis by simp
  qed
qed

lemma collect_loop_exit:
  "snd (collect_loop eng st xs) \<noteq> []
   \<Longrightarrow> \<not> (status (fst (collect_loop eng st xs)) = Running
          \<and> samplesRead (fst (collect_loop eng st xs)) < numSamples)"
proof (induction xs arbitrary: st)
  case Nil
  then show ?case by simp
next
  case (Cons x xs)
  show ?case
  proof (cases "status st = Running \<and> samplesRead st < numSamples")
    case True
    then have e: "collect_loop eng st (x # xs) = collect_loop eng (collect_body eng st x) xs"
      by simp
    from Cons.prems Cons.IH [of "collect_body eng st x"] show ?thesis unfolding e by blast
  next
    case False
    then have "collect_loop eng st (x # xs) = (st, x # xs)" by auto
    with False show ?thesis by simp
  qed
qed

lemma collect_loop_stopped:
  "\<not> (status st = Running \<and> samplesRead st < numSamples) \<Longrightarrow> collect_loop eng st xs = (st, xs)"
  by (cases xs) auto

lemma wait_loop_exit:
  "samplesRead (fst (wait_loop st xs)) = numSamples
   \<Longrightarrow> wait_loop st xs = (st, [])"
proof (induction xs)
  case Nil
  show ?case by simp
next
  case (Cons x xs)
  show ?case
  proof (cases "samplesRead st = numSamples")
    case True
    show ?thesis
    proof (cases "aSum x \<ge> accelerationThreshold")
      case t: True
      with True Cons.prems show ?thesis by (simp add: numSamples_def)
    next
      case False
      with True Cons show ?thesis by simp
    qed
  next
    case False
    with Cons.prems show ?thesis by (simp add: wait_loop_skip)
  qed
qed

text \<open>
  What \<open>run\<close> does with one more call of \<open>loop()\<close> in front: the readings that come after
  those given to \<open>loop()\<close> may just as well be handed over at once.
\<close>

lemma run_after_loop:
  assumes r: "status st = Running" and c: "samplesRead st \<le> numSamples"
  shows "(case loop eng st (xs @ ys) of (a, b) \<Rightarrow> run eng a b)
         = run eng (fst (loop eng st xs)) (snd (loop eng st xs) @ ys)"
proof -
  obtain st1 r1 where w: "wait_loop st xs = (st1, r1)" by (cases "wait_loop st xs")
  obtain st2 r2 where l: "collect_loop eng st1 r1 = (st2, r2)" by (cases "collect_loop eng st1 r1")
  have lx: "loop eng st xs = (st2, r2)" by (simp add: loop_unfold w l)
  have s1: "status st1 = Running" using wait_loop_status [of st xs] w r by simp
  show ?thesis
  proof (cases "samplesRead st1 = numSamples")
    case True
    with wait_loop_exit [of st xs] w have e: "st1 = st" "r1 = []" by simp_all
    with l have e2: "st2 = st" "r2 = []" by simp_all
    have "loop eng st (xs @ ys) = loop eng st ys"
      using wait_loop_append [of st xs ys] w e by (simp add: loop_unfold)
    moreover have "(case loop eng st ys of (a, b) \<Rightarrow> run eng a b) = run eng st ys"
    proof (cases "ys = []")
      case True
      then show ?thesis by (simp add: loop_unfold)
    next
      case False
      with r c show ?thesis by (subst (2) run_simps) simp
    qed
    ultimately show ?thesis by (simp add: lx e2)
  next
    case False
    then have "wait_loop st1 (r1 @ ys) = (st1, r1 @ ys)" by (rule wait_loop_skip)
    then have "loop eng st (xs @ ys) = collect_loop eng st1 (r1 @ ys)"
      using wait_loop_append [of st xs ys] w by (simp add: loop_unfold)
    also have "\<dots> = collect_loop eng st2 (r2 @ ys)"
      using collect_loop_append [of eng st1 r1 ys] l by simp
    finally have le: "loop eng st (xs @ ys) = collect_loop eng st2 (r2 @ ys)" .
    have "(case collect_loop eng st2 (r2 @ ys) of (a, b) \<Rightarrow> run eng a b) = run eng st2 (r2 @ ys)"
    proof (cases "status st2 = Running \<and> samplesRead st2 < numSamples")
      case False
      then show ?thesis by (simp add: collect_loop_stopped)
    next
      case True
      with collect_loop_exit [of eng st1 r1] l have r2: "r2 = []" by auto
      show ?thesis
      proof (cases "ys = []")
        case True
        with r2 show ?thesis by simp
      next
        case False
        have "wait_loop st2 ys = (st2, ys)" using True by (intro wait_loop_skip) simp
        then have "loop eng st2 ys = collect_loop eng st2 ys" by (simp add: loop_unfold)
        with True False r2 show ?thesis by (subst (2) run_simps) simp
      qed
    qed
    with le show ?thesis by (simp add: lx)
  qed
qed

lemma run_append_rest:
  "run eng st (xs @ ys) = run eng (fst (run eng st xs)) (snd (run eng st xs) @ ys)"
proof (induction eng st xs rule: run_induct)
  case (1 eng st xs)
  show ?case
  proof (cases "status st \<noteq> Running \<or> numSamples < samplesRead st \<or> xs = []")
    case True
    then have "run eng st xs = (st, xs)" by (subst run_simps) simp
    then show ?thesis by simp
  next
    case False
    then have r: "status st = Running" and c: "samplesRead st \<le> numSamples" and ne: "xs \<noteq> []"
      by simp_all
    obtain st' rest where l: "loop eng st xs = (st', rest)" by (cases "loop eng st xs")
    have rx: "run eng st xs = run eng st' rest"
      using False l by (subst run_simps) simp
    have "run eng st (xs @ ys) = (case loop eng st (xs @ ys) of (a, b) \<Rightarrow> run eng a b)"
      using r c ne by (subst run_simps) simp
    also have "\<dots> = run eng st' (rest @ ys)"
      using run_after_loop [OF r c, of eng xs ys] l by simp
    also have "\<dots> = run eng (fst (run eng st' rest)) (snd (run eng st' rest) @ ys)"
      using "1" [OF False l [symmetric]] .
    finally show ?thesis by (simp add: rx)
  qed
qed

lemma run_consumes_all:
  "status (fst (run eng st xs)) = Running \<Longrightarrow> samplesRead (fst (run eng st xs)) \<le> numSamples
   \<Longrightarrow> snd (run eng st xs) = []"
proof (induction eng st xs rule: run_induct)
  case (1 eng st xs)
  show ?case
  proof (cases "status st \<noteq> Running \<or> numSamples < samplesRead st \<or> xs = []")
    case True
    then have e: "run eng st xs = (st, xs)" by (subst run_simps) simp
    with "1.prems" True show ?thesis by auto
  next
    case False
    obtain st' rest where l: "loop eng st xs = (st', rest)" by (cases "loop eng st xs")
    have rx: "run eng st xs = run eng st' rest"
      using False l by (subst run_simps) simp
    from "1.IH" [OF False l [symmetric]] "1.prems" show ?thesis by (simp add: rx)
  qed
qed

lemma run_single:
  assumes "status st = Running" "samplesRead st \<le> numSamples"
  shows "run eng st [s] = (poll eng st s, [])"
proof -
  obtain st' rest where l: "loop eng st [s] = (st', rest)" by (cases "loop eng st [s]")
  from loop_progress [OF assms, of "[s]" eng] l have "rest = []" by simp
  with l assms have "run eng st [s] = (st', [])"
    by (subst run_simps) (simp add: run_simps [of eng st' "[]"])
  moreover have "fst (run eng st [s]) = poll eng st s" by (simp add: run_fold)
  ultimately show ?thesis by simp
qed

text \<open>
  When the state after the readings \<open>ss\<close> is running, all of \<open>ss\<close> and the reading after
  them are consumed, and what follows is run from the state they leave.
\<close>

lemma run_snoc_rest:
  assumes "status (fst (run eng st ss)) = Running"
  and "samplesRead (fst (run eng st ss)) \<le> numSamples"
  shows "run eng st (ss @ s # later) = run eng (fst (run eng st (ss @ [s]))) later"
proof -
  let ?p = "fst (run eng st ss)"
  have e: "snd (run eng st ss) = []" using assms by (rule run_consumes_all)
  have "run eng st (ss @ [s]) = run eng ?p [s]"
    using run_append_rest [of eng st ss "[s]"] e by simp
  also have "\<dots> = (poll eng ?p s, [])" using assms by (rule run_single)
  finally have one: "run eng st (ss @ [s]) = (poll eng ?p s, [])" .
  have "run eng st (ss @ s # later) = run eng st ((ss @ [s]) @ later)" by simp
  also have "\<dots> = run eng (fst (run eng st (ss @ [s]))) (snd (run eng st (ss @ [s])) @ later)"
    by (rule run_append_rest)
  finally show ?thesis by (simp add: one)
qed

subsection \<open>One reading, for any threshold\<close>






section \<open>The claims\<close>

text \<open>
  C1. In every state the sketch reaches, each call of the interpreter made so far got the
  whole input tensor, and the first 600 floats of that tensor are the gyroscope rows of 200
  readings that followed one another (with a tensor of 600 floats: the tensor is exactly
  those 200 rows). A reading leads to a call exactly when the sketch is running, the
  reading is the one that brings \<open>samplesRead\<close> to \<open>numSamples\<close>, and its row could be
  written; the call is one call, made with the tensor as that reading left it, which holds
  the rows of the last 200 readings. No other reading leads to a call.
\<close>

theorem full_window_once_per_episode:
  "let st0 = setup_sketch b m;
       st = fst (run eng st0 ss);
       st' = fst (run eng st0 (ss @ [s]))
   in (\<forall>w \<in> set (invoked st).
         length w = input_floats m
         \<and> (\<exists>k. k + 200 \<le> length ss
                \<and> take 600 w = flatten (take 200 (drop k ss))
                \<and> (input_floats m = 600 \<longrightarrow> w = flatten (take 200 (drop k ss)))))
      \<and> invoked st' =
          (if status st = Running \<and> samplesRead st + 1 = numSamples
              \<and> status st' \<noteq> WriteOutOfBounds
           then invoked st @ [inputTensor st'] else invoked st)
      \<and> (invoked st' \<noteq> invoked st \<longrightarrow>
            samplesRead st' = numSamples \<and> 199 < length ss
            \<and> take 600 (inputTensor st') = flatten (drop (length ss - 199) (ss @ [s])))"
proof -
  let ?init = "setup_sketch b m"
  let ?st = "fst (run eng ?init ss)"
  let ?st' = "fst (run eng ?init (ss @ [s]))"
  have step: "?st' = poll eng ?st s" by (rule run_snoc)
  have i: "samplesRead ?init = numSamples" by (rule setup_samplesRead)
  have e: "invoked ?init = []" by (rule setup_invoked)
  have fold: "?st = foldl (poll eng) ?init ss" by (rule run_fold)
  have windows: "length w = input_floats m
         \<and> (\<exists>k. k + 200 \<le> length ss
                \<and> take 600 w = flatten (take 200 (drop k ss))
                \<and> (input_floats m = 600 \<longrightarrow> w = flatten (take 200 (drop k ss))))"
    if w: "w \<in> set (invoked ?st)" for w
  proof (cases "b \<and> version m = TFLITE_SCHEMA_VERSION")
    case False
    then have "status ?init \<noteq> Running" by (auto simp: setup_status)
    then have "?st = ?init" by (simp add: run_stopped)
    with w e show ?thesis by simp
  next
    case True
    then have l: "length (inputTensor ?init) = input_floats m" by (simp add: setup_inputTensor)
    from invoked_windows [OF i e, of eng ss] w obtain k
      where lw: "length w = length (inputTensor ?init)" and k: "k + 200 \<le> length ss"
        and t: "take 600 w = flatten (take 200 (drop k ss))"
      unfolding fold by blast
    have "w = flatten (take 200 (drop k ss))" if "input_floats m = 600"
      using that t lw l by simp
    moreover have "length w = input_floats m" using lw l by simp
    ultimately show ?thesis using k t by (intro conjI exI [of _ k] impI) simp_all
  qed
  have grow: "invoked ?st' =
          (if status ?st = Running \<and> samplesRead ?st + 1 = numSamples
              \<and> status ?st' \<noteq> WriteOutOfBounds
           then invoked ?st @ [inputTensor ?st'] else invoked ?st)"
  proof (cases "status ?st = Running \<and> samplesRead ?st + 1 = numSamples")
    case False
    then show ?thesis unfolding step by (auto simp: poll_invoked)
  next
    case True
    then have r: "status ?st = Running" and lt: "samplesRead ?st < numSamples" by simp_all
    from poll_write_fault [OF r lt, of eng s] True show ?thesis
      unfolding step by (auto simp: poll_invoked poll_inputTensor)
  qed
  have last: "samplesRead ?st' = numSamples \<and> 199 < length ss
            \<and> take 600 (inputTensor ?st') = flatten (drop (length ss - 199) (ss @ [s]))"
    if "invoked ?st' \<noteq> invoked ?st"
  proof -
    from that have c: "status ?st = Running" "samplesRead ?st + 1 = numSamples"
      and n: "store_row (inputTensor ?st) (samplesRead ?st) s \<noteq> None"
      unfolding step by (auto simp: poll_invoked split: if_splits)
    from n obtain t where t: "store_row (inputTensor ?st) (samplesRead ?st) s = Some t" by auto
    have "poll eng ?st s = run_inference eng (?st\<lparr>inputTensor := t, samplesRead := samplesRead ?st + 1\<rparr>)"
      using c t by (simp add: poll_collect collect_body_last)
    then have "samplesRead (poll eng ?st s) = numSamples" "inputTensor (poll eng ?st s) = t"
      using c by simp_all
    moreover from window_complete [OF i, of eng ss s t] c t
    have "199 < length ss \<and> take 600 t = flatten (drop (length ss - 199) (ss @ [s]))"
      unfolding fold by simp
    ultimately show ?thesis unfolding step by simp
  qed
  show ?thesis unfolding Let_def using windows grow last by blast
qed

theorem full_window_once_per_episode_witness:
  "status (fst (run zero_scores (setup_sketch True gait_model) almost)) = Running
   \<and> samplesRead (fst (run zero_scores (setup_sketch True gait_model) almost)) + 1 = numSamples
   \<and> status (fst (run zero_scores (setup_sketch True gait_model) (almost @ [quiet]))) \<noteq> WriteOutOfBounds
   \<and> invoked (fst (run zero_scores (setup_sketch True gait_model) (almost @ [quiet])))
       = invoked (fst (run zero_scores (setup_sketch True gait_model) almost))
         @ [inputTensor (fst (run zero_scores (setup_sketch True gait_model) (almost @ [quiet])))]
   \<and> invoked (fst (run zero_scores (setup_sketch True gait_model) (almost @ [quiet])))
       \<noteq> invoked (fst (run zero_scores (setup_sketch True gait_model) almost))
   \<and> samplesRead (fst (run zero_scores (setup_sketch True gait_model) (almost @ [quiet]))) = numSamples
   \<and> inputTensor (fst (run zero_scores (setup_sketch True gait_model) (almost @ [quiet])))
       \<in> set (invoked (fst (run zero_scores (setup_sketch True gait_model) (almost @ [quiet]))))
   \<and> input_floats gait_model = 600
   \<and> (\<exists>k. k + 200 \<le> length (almost @ [quiet])
          \<and> inputTensor (fst (run zero_scores (setup_sketch True gait_model) (almost @ [quiet])))
              = flatten (take 200 (drop k (almost @ [quiet]))))"
proof -
  let ?init = "setup_sketch True gait_model"
  let ?st = "fst (run zero_scores ?init almost)"
  let ?st' = "fst (run zero_scores ?init (almost @ [quiet]))"
  have 1: "status ?st = Running" by (rule gait_ready)
  have 2: "samplesRead ?st + 1 = numSamples" by (simp add: gait_ready numSamples_def)
  have 3: "status ?st' \<noteq> WriteOutOfBounds" by (rule gait_no_write_fault)
  have 4: "input_floats gait_model = 600" by (simp add: gait_model_def)
  from full_window_once_per_episode [of True gait_model zero_scores almost quiet] 1 2 3
  have 5: "invoked ?st' = invoked ?st @ [inputTensor ?st']"
    unfolding Let_def by simp
  then have 6: "invoked ?st' \<noteq> invoked ?st" by simp
  with full_window_once_per_episode [of True gait_model zero_scores almost quiet]
  have 7: "samplesRead ?st' = numSamples" unfolding Let_def by blast
  from 5 have 8: "inputTensor ?st' \<in> set (invoked ?st')" by simp
  with full_window_once_per_episode [of True gait_model zero_scores "almost @ [quiet]" quiet] 4
  have 9: "\<exists>k. k + 200 \<le> length (almost @ [quiet])
          \<and> inputTensor ?st' = flatten (take 200 (drop k (almost @ [quiet])))"
    unfolding Let_def by blast
  from 1 2 3 4 5 6 7 8 9 show ?thesis by blast
qed

text \<open>
  C2. Take any state the sketch reaches in which it is running and collecting, with
  \<open>n = samplesRead\<close> rows written. Then the readings taken since the trigger are the last
  \<open>n\<close> ones: the reading before them was taken idle and reached the threshold, and it left
  the counter at 0. For every \<open>i < n\<close>, the floats at \<open>3i\<close>, \<open>3i + 1\<close>, \<open>3i + 2\<close> of the input
  tensor are \<open>gx\<close>, \<open>gy\<close>, \<open>gz\<close> of the \<open>i\<close>-th of these readings. The next reading, unless its
  row cannot be written, puts its \<open>gx\<close>, \<open>gy\<close>, \<open>gz\<close> at \<open>3n\<close>, \<open>3n + 1\<close>, \<open>3n + 2\<close>, changes no
  other float, and moves the counter to \<open>n + 1\<close>; its acceleration plays no part.
\<close>

theorem rows_are_gyro_in_order:
  "let st0 = setup_sketch b m;
       st = fst (run eng st0 ss);
       st' = fst (run eng st0 (ss @ [s]));
       n = nat (samplesRead st);
       j = length ss - n
   in status st = Running \<and> samplesRead st < numSamples \<longrightarrow>
        n < length ss
        \<and> status (fst (run eng st0 (take (j - 1) ss))) = Running
        \<and> samplesRead (fst (run eng st0 (take (j - 1) ss))) = numSamples
        \<and> aSum (ss ! (j - 1)) \<ge> accelerationThreshold
        \<and> samplesRead (fst (run eng st0 (take j ss))) = 0
        \<and> (\<forall>i < n. inputTensor st ! (3 * i) = gyro_x (ss ! (j + i))
                   \<and> inputTensor st ! (3 * i + 1) = gyro_y (ss ! (j + i))
                   \<and> inputTensor st ! (3 * i + 2) = gyro_z (ss ! (j + i)))
        \<and> (status st' \<noteq> WriteOutOfBounds \<longrightarrow>
              inputTensor st' ! (3 * n) = gyro_x s
              \<and> inputTensor st' ! (3 * n + 1) = gyro_y s
              \<and> inputTensor st' ! (3 * n + 2) = gyro_z s
              \<and> take (3 * n) (inputTensor st') = take (3 * n) (inputTensor st)
              \<and> drop (3 * n + 3) (inputTensor st') = drop (3 * n + 3) (inputTensor st)
              \<and> samplesRead st' = samplesRead st + 1)
        \<and> fst (run eng st0 (ss @ [s\<lparr>acc_x := a1, acc_y := a2, acc_z := a3\<rparr>])) = st'"
proof -
  let ?init = "setup_sketch b m"
  let ?st = "fst (run eng ?init ss)"
  let ?st' = "fst (run eng ?init (ss @ [s]))"
  let ?n = "nat (samplesRead ?st)"
  let ?j = "length ss - ?n"
  have step: "?st' = poll eng ?st s" by (rule run_snoc)
  have i: "samplesRead ?init = numSamples" by (rule setup_samplesRead)
  have fold: "fst (run eng ?init xs) = foldl (poll eng) ?init xs" for xs by (rule run_fold)
  have "?n < length ss
        \<and> status (fst (run eng ?init (take (?j - 1) ss))) = Running
        \<and> samplesRead (fst (run eng ?init (take (?j - 1) ss))) = numSamples
        \<and> aSum (ss ! (?j - 1)) \<ge> accelerationThreshold
        \<and> samplesRead (fst (run eng ?init (take ?j ss))) = 0
        \<and> (\<forall>i < ?n. inputTensor ?st ! (3 * i) = gyro_x (ss ! (?j + i))
                   \<and> inputTensor ?st ! (3 * i + 1) = gyro_y (ss ! (?j + i))
                   \<and> inputTensor ?st ! (3 * i + 2) = gyro_z (ss ! (?j + i)))
        \<and> (status ?st' \<noteq> WriteOutOfBounds \<longrightarrow>
              inputTensor ?st' ! (3 * ?n) = gyro_x s
              \<and> inputTensor ?st' ! (3 * ?n + 1) = gyro_y s
              \<and> inputTensor ?st' ! (3 * ?n + 2) = gyro_z s
              \<and> take (3 * ?n) (inputTensor ?st') = take (3 * ?n) (inputTensor ?st)
              \<and> drop (3 * ?n + 3) (inputTensor ?st') = drop (3 * ?n + 3) (inputTensor ?st)
              \<and> samplesRead ?st' = samplesRead ?st + 1)
        \<and> fst (run eng ?init (ss @ [s\<lparr>acc_x := a1, acc_y := a2, acc_z := a3\<rparr>])) = ?st'"
    if r: "status ?st = Running" and c: "samplesRead ?st < numSamples"
  proof -
    from filled_invariant [OF i, of eng ss] r c have f: "filled eng ?init ss"
      by (simp add: fold)
    then have a: "?n < length ss"
      and t: "take (3 * ?n) (inputTensor ?st) = flatten (drop ?j ss)"
      and d: "status (fst (run eng ?init (take (?j - 1) ss))) = Running"
             "samplesRead (fst (run eng ?init (take (?j - 1) ss))) = numSamples"
             "aSum (ss ! (?j - 1)) \<ge> accelerationThreshold"
             "samplesRead (fst (run eng ?init (take ?j ss))) = 0"
      by (simp_all add: filled_def Let_def fold)
    have rows: "inputTensor ?st ! (3 * i) = gyro_x (ss ! (?j + i))
                   \<and> inputTensor ?st ! (3 * i + 1) = gyro_y (ss ! (?j + i))
                   \<and> inputTensor ?st ! (3 * i + 2) = gyro_z (ss ! (?j + i))"
      if "i < ?n" for i
    proof -
      have l: "i < length (drop ?j ss)" using that a by simp
      have e: "inputTensor ?st ! k = flatten (drop ?j ss) ! k" if "k < 3 * ?n" for k
        using that nth_take [of k "3 * ?n" "inputTensor ?st"] by (simp add: t)
      have "3 * i < 3 * ?n" "3 * i + 1 < 3 * ?n" "3 * i + 2 < 3 * ?n" using \<open>i < ?n\<close> by simp_all
      with e have "inputTensor ?st ! (3 * i) = flatten (drop ?j ss) ! (3 * i)"
        "inputTensor ?st ! (3 * i + 1) = flatten (drop ?j ss) ! (3 * i + 1)"
        "inputTensor ?st ! (3 * i + 2) = flatten (drop ?j ss) ! (3 * i + 2)" by blast+
      moreover have "drop ?j ss ! i = ss ! (?j + i)" using a by simp
      ultimately show ?thesis using flatten_nth [OF l] by simp
    qed
    have next_row: "inputTensor ?st' ! (3 * ?n) = gyro_x s
              \<and> inputTensor ?st' ! (3 * ?n + 1) = gyro_y s
              \<and> inputTensor ?st' ! (3 * ?n + 2) = gyro_z s
              \<and> take (3 * ?n) (inputTensor ?st') = take (3 * ?n) (inputTensor ?st)
              \<and> drop (3 * ?n + 3) (inputTensor ?st') = drop (3 * ?n + 3) (inputTensor ?st)
              \<and> samplesRead ?st' = samplesRead ?st + 1"
      if nf: "status ?st' \<noteq> WriteOutOfBounds"
    proof -
      from nf poll_write_fault [OF r c, of eng s]
      obtain t' where w: "store_row (inputTensor ?st) (samplesRead ?st) s = Some t'"
        unfolding step by auto
      have "inputTensor ?st' = t'"
        unfolding step using r c w by (simp add: poll_inputTensor)
      moreover have "samplesRead ?st' = samplesRead ?st + 1"
        unfolding step using r c nf [unfolded step]
        by (simp add: poll_collect collect_body_increment)
      ultimately show ?thesis using store_row_nth [OF w] by simp
    qed
    have same: "fst (run eng ?init (ss @ [s\<lparr>acc_x := a1, acc_y := a2, acc_z := a3\<rparr>])) = ?st'"
      using c by (simp only: run_snoc) (simp add: poll_acceleration_ignored)
    from a d rows next_row same show ?thesis by blast
  qed
  then show ?thesis unfolding Let_def by blast
qed

theorem rows_are_gyro_in_order_witness:
  "status (fst (run zero_scores (setup_sketch True gait_model) [quiet, shaken])) = Running
   \<and> samplesRead (fst (run zero_scores (setup_sketch True gait_model) [quiet, shaken])) < numSamples
   \<and> nat (samplesRead (fst (run zero_scores (setup_sketch True gait_model) [quiet, shaken]))) = 1
   \<and> inputTensor (fst (run zero_scores (setup_sketch True gait_model) [quiet, shaken])) ! 0 = 5
   \<and> inputTensor (fst (run zero_scores (setup_sketch True gait_model) [quiet, shaken])) ! 1 = 6
   \<and> inputTensor (fst (run zero_scores (setup_sketch True gait_model) [quiet, shaken])) ! 2 = 7
   \<and> status (fst (run zero_scores (setup_sketch True gait_model) ([quiet, shaken] @ [quiet])))
       \<noteq> WriteOutOfBounds
   \<and> inputTensor (fst (run zero_scores (setup_sketch True gait_model) ([quiet, shaken] @ [quiet]))) ! 3 = 1
   \<and> inputTensor (fst (run zero_scores (setup_sketch True gait_model) ([quiet, shaken] @ [quiet]))) ! 4 = 0
   \<and> inputTensor (fst (run zero_scores (setup_sketch True gait_model) ([quiet, shaken] @ [quiet]))) ! 5 = 0"
proof -
  let ?init = "setup_sketch True gait_model"
  let ?st = "fst (run zero_scores ?init [quiet, shaken])"
  let ?st' = "fst (run zero_scores ?init ([quiet, shaken] @ [quiet]))"
  have p1: "poll zero_scores ?init quiet = ?init\<lparr>samplesRead := 0\<rparr>"
    using aSum_nonneg [of quiet] by (simp add: poll_idle gait_setup accelerationThreshold_def)
  have "status (foldl (poll zero_scores) (?init\<lparr>samplesRead := 0\<rparr>) [shaken]) = Running
         \<and> samplesRead (foldl (poll zero_scores) (?init\<lparr>samplesRead := 0\<rparr>) [shaken])
             = samplesRead (?init\<lparr>samplesRead := 0\<rparr>) + int (length [shaken])
         \<and> invoked (foldl (poll zero_scores) (?init\<lparr>samplesRead := 0\<rparr>) [shaken])
             = invoked (?init\<lparr>samplesRead := 0\<rparr>)
         \<and> serial (foldl (poll zero_scores) (?init\<lparr>samplesRead := 0\<rparr>) [shaken])
             = serial (?init\<lparr>samplesRead := 0\<rparr>)"
    by (rule collect_many) (simp_all add: gait_setup numSamples_def)
  then have 1: "status ?st = Running" and n: "samplesRead ?st = 1"
    by (simp_all add: run_fold p1)
  from n have 2: "samplesRead ?st < numSamples" and 3: "nat (samplesRead ?st) = 1"
    by (simp_all add: numSamples_def)
  have 4: "status ?st' \<noteq> WriteOutOfBounds" by (rule gait_no_write_fault)
  from rows_are_gyro_in_order [of True gait_model zero_scores "[quiet, shaken]" quiet 0 0 0] 1 2
  have rows: "\<forall>i < nat (samplesRead ?st).
                   inputTensor ?st ! (3 * i) = gyro_x ([quiet, shaken] ! (length [quiet, shaken] - nat (samplesRead ?st) + i))
                   \<and> inputTensor ?st ! (3 * i + 1) = gyro_y ([quiet, shaken] ! (length [quiet, shaken] - nat (samplesRead ?st) + i))
                   \<and> inputTensor ?st ! (3 * i + 2) = gyro_z ([quiet, shaken] ! (length [quiet, shaken] - nat (samplesRead ?st) + i))"
    and nxt: "status ?st' \<noteq> WriteOutOfBounds \<longrightarrow>
              inputTensor ?st' ! (3 * nat (samplesRead ?st)) = gyro_x quiet
              \<and> inputTensor ?st' ! (3 * nat (samplesRead ?st) + 1) = gyro_y quiet
              \<and> inputTensor ?st' ! (3 * nat (samplesRead ?st) + 2) = gyro_z quiet"
    unfolding Let_def by blast+
  have g: "gyro_x shaken = 5" "gyro_y shaken = 6" "gyro_z shaken = 7"
    "gyro_x quiet = 1" "gyro_y quiet = 0" "gyro_z quiet = 0"
    by (simp_all add: shaken_def quiet_def)
  from rows [rule_format, of 0] have "inputTensor ?st ! 0 = gyro_x shaken
    \<and> inputTensor ?st ! 1 = gyro_y shaken \<and> inputTensor ?st ! 2 = gyro_z shaken"
    by (simp add: 3 numeral_2_eq_2)
  then have 5: "inputTensor ?st ! 0 = 5" "inputTensor ?st ! 1 = 6" "inputTensor ?st ! 2 = 7"
    by (simp_all only: g)
  from nxt 4 have "inputTensor ?st' ! 3 = gyro_x quiet \<and> inputTensor ?st' ! 4 = gyro_y quiet
    \<and> inputTensor ?st' ! 5 = gyro_z quiet"
    by (simp add: 3)
  then have 6: "inputTensor ?st' ! 3 = 1" "inputTensor ?st' ! 4 = 0" "inputTensor ?st' ! 5 = 0"
    by (simp_all only: g)
  from 1 2 3 4 5 6 show ?thesis by blast
qed



text \<open>
  C4, as the code has it. The sketch has no separate flag for ``idle'': idle is
  \<open>samplesRead = numSamples\<close>. After every inference that completed with its report (the
  reading led to a call of the interpreter and the state is still running),
  \<open>samplesRead\<close> is \<open>numSamples\<close>, so the next reading is tested against the threshold; and
  when such a reading reaches the threshold the counter becomes 0, so that the reading
  after it is written to the floats 0, 1, 2 of the input tensor and the counter becomes 1.
\<close>

theorem idle_after_inference:
  "let st0 = setup_sketch b m;
       st = fst (run eng st0 ss);
       st1 = fst (run eng st0 (ss @ [s]));
       st2 = fst (run eng st0 (ss @ [s, t]));
       st3 = fst (run eng st0 (ss @ [s, t, u]))
   in invoked st1 \<noteq> invoked st \<and> status st1 = Running \<longrightarrow>
        samplesRead st1 = numSamples
        \<and> (aSum t \<ge> accelerationThreshold \<longrightarrow>
              status st2 = Running \<and> samplesRead st2 = 0
              \<and> status st3 = Running \<and> samplesRead st3 = 1
              \<and> inputTensor st3 ! 0 = gyro_x u
              \<and> inputTensor st3 ! 1 = gyro_y u
              \<and> inputTensor st3 ! 2 = gyro_z u)
        \<and> (\<not> aSum t \<ge> accelerationThreshold \<longrightarrow> st2 = st1)"
proof -
  let ?init = "setup_sketch b m"
  let ?st = "fst (run eng ?init ss)"
  let ?st1 = "fst (run eng ?init (ss @ [s]))"
  let ?st2 = "fst (run eng ?init (ss @ [s, t]))"
  let ?st3 = "fst (run eng ?init (ss @ [s, t, u]))"
  have s1: "?st1 = poll eng ?st s" by (rule run_snoc)
  have s2: "?st2 = poll eng ?st1 t" by (simp add: run_fold)
  have s3: "?st3 = poll eng ?st2 u" by (simp add: run_fold)
  have "samplesRead ?st1 = numSamples
        \<and> (aSum t \<ge> accelerationThreshold \<longrightarrow>
              status ?st2 = Running \<and> samplesRead ?st2 = 0
              \<and> status ?st3 = Running \<and> samplesRead ?st3 = 1
              \<and> inputTensor ?st3 ! 0 = gyro_x u
              \<and> inputTensor ?st3 ! 1 = gyro_y u
              \<and> inputTensor ?st3 ! 2 = gyro_z u)
        \<and> (\<not> aSum t \<ge> accelerationThreshold \<longrightarrow> ?st2 = ?st1)"
    if i: "invoked ?st1 \<noteq> invoked ?st" and r1: "status ?st1 = Running"
  proof -
    from i have c: "status ?st = Running" "samplesRead ?st + 1 = numSamples"
      and n: "store_row (inputTensor ?st) (samplesRead ?st) s \<noteq> None"
      unfolding s1 by (auto simp: poll_invoked split: if_splits)
    from n obtain w where w: "store_row (inputTensor ?st) (samplesRead ?st) s = Some w" by auto
    have p: "poll eng ?st s = run_inference eng (?st\<lparr>inputTensor := w, samplesRead := samplesRead ?st + 1\<rparr>)"
      using c w by (simp add: poll_collect collect_body_last)
    have idle: "samplesRead ?st1 = numSamples" unfolding s1 p using c by simp
    from store_row_bounds [OF w] c have "600 \<le> length (inputTensor ?st)"
      by (simp add: numSamples_def)
    then have len: "600 \<le> length (inputTensor ?st1)" unfolding s1 by (simp add: poll_length)
    have quiet: "?st2 = ?st1" if "\<not> aSum t \<ge> accelerationThreshold"
      unfolding s2 using that r1 idle by (simp add: poll_idle)
    have fire: "status ?st2 = Running \<and> samplesRead ?st2 = 0
              \<and> status ?st3 = Running \<and> samplesRead ?st3 = 1
              \<and> inputTensor ?st3 ! 0 = gyro_x u
              \<and> inputTensor ?st3 ! 1 = gyro_y u
              \<and> inputTensor ?st3 ! 2 = gyro_z u"
      if "aSum t \<ge> accelerationThreshold"
    proof -
      have e2: "?st2 = ?st1\<lparr>samplesRead := 0\<rparr>"
        unfolding s2 using that r1 idle by (simp add: poll_idle)
      then have r2: "status ?st2 = Running" and z: "samplesRead ?st2 = 0"
        and l2: "600 \<le> length (inputTensor ?st2)"
        using r1 len by simp_all
      have b: "samplesRead ?st2 * 3 + 2 < int (length (inputTensor ?st2))" using z l2 by simp
      have z0: "0 \<le> samplesRead ?st2" using z by simp
      from store_row_Some [OF z0 b, of u]
      obtain v where v: "store_row (inputTensor ?st2) (samplesRead ?st2) u = Some v" by blast
      have "samplesRead ?st2 + 1 \<noteq> numSamples" using z by (simp add: numSamples_def)
      with v r2 z have e3: "?st3 = ?st2\<lparr>inputTensor := v, samplesRead := samplesRead ?st2 + 1\<rparr>"
        unfolding s3 by (simp add: poll_collect collect_body_mid numSamples_def)
      from store_row_nth [OF v] z have "v ! 0 = gyro_x u \<and> v ! 1 = gyro_y u \<and> v ! 2 = gyro_z u"
        by (simp add: numeral_2_eq_2)
      moreover from arg_cong [OF e3, of status] arg_cong [OF e3, of samplesRead]
        arg_cong [OF e3, of inputTensor] r2 z
      have "status ?st3 = Running" "samplesRead ?st3 = 1" "inputTensor ?st3 = v" by simp_all
      ultimately show ?thesis using r2 z by simp
    qed
    from idle quiet fire show ?thesis by blast
  qed
  then show ?thesis unfolding Let_def by blast
qed

theorem idle_after_inference_witness:
  "invoked (fst (run zero_scores (setup_sketch True gait_model) (almost @ [quiet])))
     \<noteq> invoked (fst (run zero_scores (setup_sketch True gait_model) almost))
   \<and> status (fst (run zero_scores (setup_sketch True gait_model) (almost @ [quiet]))) = Running
   \<and> aSum shaken \<ge> accelerationThreshold
   \<and> samplesRead (fst (run zero_scores (setup_sketch True gait_model) (almost @ [quiet]))) = numSamples
   \<and> samplesRead (fst (run zero_scores (setup_sketch True gait_model) (almost @ [quiet, shaken]))) = 0
   \<and> samplesRead (fst (run zero_scores (setup_sketch True gait_model) (almost @ [quiet, shaken, shaken]))) = 1
   \<and> inputTensor (fst (run zero_scores (setup_sketch True gait_model) (almost @ [quiet, shaken, shaken]))) ! 0
       = gyro_x shaken"
proof -
  let ?init = "setup_sketch True gait_model"
  let ?st = "fst (run zero_scores ?init almost)"
  let ?st1 = "fst (run zero_scores ?init (almost @ [quiet]))"
  have "invoked ?st1 = invoked ?st @ [inputTensor ?st1]" by (rule gait_invoked)
  then have 1: "invoked ?st1 \<noteq> invoked ?st" by simp
  have 2: "status ?st1 = Running" by (rule gait_done)
  have 3: "aSum shaken \<ge> accelerationThreshold"
    by (simp add: aSum_def shaken_def accelerationThreshold_def)
  from idle_after_inference [of True gait_model zero_scores almost quiet shaken shaken] 1 2 3
  show ?thesis unfolding Let_def by blast
qed

text \<open>
  The claim C4 says that after a completed inference the counter is back at 0. It is not:
  after the reading that triggers and the 200 readings of the window, the interpreter has
  been called once, the sketch is running, and \<open>samplesRead\<close> is 200.
\<close>

theorem counter_stays_at_numSamples:
  "length (invoked (fst (run zero_scores (setup_sketch True gait_model) (almost @ [quiet])))) = 1
   \<and> status (fst (run zero_scores (setup_sketch True gait_model) (almost @ [quiet]))) = Running
   \<and> samplesRead (fst (run zero_scores (setup_sketch True gait_model) (almost @ [quiet]))) = 200
   \<and> samplesRead (fst (run zero_scores (setup_sketch True gait_model) (almost @ [quiet]))) \<noteq> 0"
proof -
  let ?init = "setup_sketch True gait_model"
  let ?st = "fst (run zero_scores ?init almost)"
  let ?st1 = "fst (run zero_scores ?init (almost @ [quiet]))"
  have "invoked ?st1 = invoked ?st @ [inputTensor ?st1]" by (rule gait_invoked)
  then have 1: "length (invoked ?st1) = 1" by (simp add: gait_ready)
  have 2: "status ?st1 = Running" by (rule gait_done)
  have "samplesRead (poll zero_scores ?st quiet) = samplesRead ?st + 1"
    using gait_no_write_fault [of zero_scores "almost @ [quiet]"]
    by (simp add: run_snoc poll_collect collect_body_increment gait_ready numSamples_def)
  then have 3: "samplesRead ?st1 = 200" by (simp add: run_snoc gait_ready)
  from 1 2 3 show ?thesis by simp
qed

text \<open>
  C5. In every state the sketch reaches while it collects (running,
  \<open>samplesRead < numSamples\<close>), the next reading never starts an episode: whatever its
  acceleration, the state it leads to is the same, the counter is not reset, and unless its
  row could not be written the counter goes up by one. An episode starts only from
  \<open>samplesRead = numSamples\<close>, that is, after the window before it was handed over. And
  from a state with \<open>samplesRead = numSamples\<close>, such as the one a call of the interpreter
  leaves, the next 200 readings lead to no call: the 200 readings of the next window all
  come after the call for this one, so two windows never share a reading.
\<close>

theorem no_trigger_while_collecting:
  "let st0 = setup_sketch b m;
       st = fst (run eng st0 ss);
       st' = fst (run eng st0 (ss @ [s]))
   in (status st = Running \<and> samplesRead st < numSamples \<longrightarrow>
         \<not> (status st' = Running \<and> samplesRead st' = 0)
         \<and> (status st' \<noteq> WriteOutOfBounds \<longrightarrow> samplesRead st' = samplesRead st + 1)
         \<and> fst (run eng st0 (ss @ [s\<lparr>acc_x := a1, acc_y := a2, acc_z := a3\<rparr>])) = st')
      \<and> (status st' = Running \<and> samplesRead st' = 0 \<longrightarrow> samplesRead st = numSamples)
      \<and> (samplesRead st = numSamples \<and> length later \<le> 200 \<longrightarrow>
             invoked (fst (run eng st0 (ss @ later))) = invoked st)"
proof -
  let ?init = "setup_sketch b m"
  let ?st = "fst (run eng ?init ss)"
  let ?st' = "fst (run eng ?init (ss @ [s]))"
  have step: "?st' = poll eng ?st s" by (rule run_snoc)
  have range: "0 \<le> samplesRead ?st" "samplesRead ?st \<le> numSamples"
    using reach_range [of eng b m ss] by simp_all
  have inc: "samplesRead ?st' = samplesRead ?st + 1"
    if "status ?st = Running" "samplesRead ?st < numSamples" "status ?st' \<noteq> WriteOutOfBounds"
    using that unfolding step by (simp add: poll_collect collect_body_increment)
  have norestart: "\<not> (status ?st' = Running \<and> samplesRead ?st' = 0)"
    if "status ?st = Running" "samplesRead ?st < numSamples"
  proof
    assume h: "status ?st' = Running \<and> samplesRead ?st' = 0"
    then have "status ?st' \<noteq> WriteOutOfBounds" by simp
    from inc [OF that this] h range show False by simp
  qed
  have same: "fst (run eng ?init (ss @ [s\<lparr>acc_x := a1, acc_y := a2, acc_z := a3\<rparr>])) = ?st'"
    if "samplesRead ?st < numSamples"
    using that by (simp only: run_snoc) (simp add: poll_acceleration_ignored)
  have fromidle: "samplesRead ?st = numSamples" if h: "status ?st' = Running \<and> samplesRead ?st' = 0"
  proof (rule ccontr)
    assume "samplesRead ?st \<noteq> numSamples"
    with range have lt: "samplesRead ?st < numSamples" by simp
    have "status ?st = Running"
      using h poll_not_running [of ?st eng s] unfolding step by (cases "status ?st = Running") auto
    from norestart [OF this lt] h show False ..
  qed
  have quiet200: "invoked (fst (run eng ?init (ss @ later))) = invoked ?st"
    if "samplesRead ?st = numSamples" "length later \<le> 200"
  proof -
    have "invoked (foldl (poll eng) ?st later) = invoked ?st"
      using that range by (intro no_invoke_within) (simp_all add: numSamples_def)
    then show ?thesis by (simp add: run_fold)
  qed
  show ?thesis
    unfolding Let_def using inc norestart same fromidle quiet200 by blast
qed

theorem no_trigger_while_collecting_witness:
  "status (fst (run zero_scores (setup_sketch True gait_model) [quiet])) = Running
   \<and> samplesRead (fst (run zero_scores (setup_sketch True gait_model) [quiet])) < numSamples
   \<and> aSum shaken \<ge> accelerationThreshold
   \<and> \<not> (status (fst (run zero_scores (setup_sketch True gait_model) ([quiet] @ [shaken]))) = Running
        \<and> samplesRead (fst (run zero_scores (setup_sketch True gait_model) ([quiet] @ [shaken]))) = 0)
   \<and> status (fst (run zero_scores (setup_sketch True gait_model) ([quiet] @ [shaken]))) \<noteq> WriteOutOfBounds
   \<and> samplesRead (fst (run zero_scores (setup_sketch True gait_model) ([quiet] @ [shaken])))
       = samplesRead (fst (run zero_scores (setup_sketch True gait_model) [quiet])) + 1
   \<and> fst (run zero_scores (setup_sketch True gait_model)
            ([quiet] @ [shaken\<lparr>acc_x := 0, acc_y := 0, acc_z := 0\<rparr>]))
       = fst (run zero_scores (setup_sketch True gait_model) ([quiet] @ [shaken]))
   \<and> status (fst (run zero_scores (setup_sketch True gait_model) ([] @ [quiet]))) = Running
   \<and> samplesRead (fst (run zero_scores (setup_sketch True gait_model) ([] @ [quiet]))) = 0
   \<and> samplesRead (fst (run zero_scores (setup_sketch True gait_model) [])) = numSamples
   \<and> length almost \<le> 200
   \<and> invoked (fst (run zero_scores (setup_sketch True gait_model) ([] @ almost)))
       = invoked (fst (run zero_scores (setup_sketch True gait_model) []))"
proof -
  let ?init = "setup_sketch True gait_model"
  have p1: "fst (run zero_scores ?init [quiet]) = ?init\<lparr>samplesRead := 0\<rparr>"
    using aSum_nonneg [of quiet]
    by (simp add: run_fold poll_idle gait_setup accelerationThreshold_def)
  have 1: "status (fst (run zero_scores ?init [quiet])) = Running"
    and 2: "samplesRead (fst (run zero_scores ?init [quiet])) < numSamples"
    by (simp_all add: p1 gait_setup numSamples_def)
  have 3: "aSum shaken \<ge> accelerationThreshold"
    by (simp add: aSum_def shaken_def accelerationThreshold_def)
  have 4: "status (fst (run zero_scores ?init ([quiet] @ [shaken]))) \<noteq> WriteOutOfBounds"
    by (rule gait_no_write_fault)
  have 5: "status (fst (run zero_scores ?init ([] @ [quiet]))) = Running"
    and 6: "samplesRead (fst (run zero_scores ?init ([] @ [quiet]))) = 0"
    using p1 by (simp_all add: gait_setup)
  have 7: "samplesRead (fst (run zero_scores ?init [])) = numSamples"
    by (simp add: run_fold gait_setup)
  have 8: "length almost \<le> 200" by (simp add: almost_def)
  from no_trigger_while_collecting [of True gait_model zero_scores "[quiet]" shaken 0 0 0 "[]"] 1 2 4
  have 9: "\<not> (status (fst (run zero_scores ?init ([quiet] @ [shaken]))) = Running
        \<and> samplesRead (fst (run zero_scores ?init ([quiet] @ [shaken]))) = 0)"
    and 10: "samplesRead (fst (run zero_scores ?init ([quiet] @ [shaken])))
       = samplesRead (fst (run zero_scores ?init [quiet])) + 1"
    and 11: "fst (run zero_scores ?init ([quiet] @ [shaken\<lparr>acc_x := 0, acc_y := 0, acc_z := 0\<rparr>]))
       = fst (run zero_scores ?init ([quiet] @ [shaken]))"
    unfolding Let_def by blast+
  from no_trigger_while_collecting [of True gait_model zero_scores "[]" quiet 0 0 0 almost] 7 8
  have 12: "invoked (fst (run zero_scores ?init ([] @ almost)))
       = invoked (fst (run zero_scores ?init []))"
    unfolding Let_def by blast
  from 1 2 3 4 5 6 7 8 9 10 11 12 show ?thesis by blast
qed

text \<open>
  C6. When a reading completes the window and the call of the interpreter made for it
  returns a status other than \<open>kTfLiteOk\<close>, the sketch prints ``Invoke failed!'' and nothing
  else (no score, no line of the report), and it is halted for good: whatever readings
  \<open>later\<close> the sensor has after that one, the run ends in the same state and leaves all of
  them untaken, so no further episode is processed and nothing more is printed or invoked.
\<close>

theorem failed_invoke_halts:
  "let st = fst (run eng (setup_sketch b m) ss);
       st' = fst (run eng (setup_sketch b m) (ss @ [s]))
   in invoked st' = invoked st @ [w] \<and> fst (eng (length (invoked st)) w) \<noteq> kTfLiteOk
      \<longrightarrow> status st' = Halted
          \<and> serial st' = serial st @ [Text ''Invoke failed!'', Newline]
          \<and> (\<forall>v d. Number v d \<in> set (serial st') \<longrightarrow> Number v d \<in> set (serial st))
          \<and> run eng (setup_sketch b m) (ss @ s # later) = (st', later)
          \<and> run eng st' later = (st', later)"
proof -
  let ?st = "fst (run eng (setup_sketch b m) ss)"
  let ?st' = "fst (run eng (setup_sketch b m) (ss @ [s]))"
  have step: "?st' = poll eng ?st s" by (rule run_snoc)
  have "status ?st' = Halted \<and> serial ?st' = serial ?st @ [Text ''Invoke failed!'', Newline]
        \<and> run eng (setup_sketch b m) (ss @ s # later) = (?st', later)
        \<and> run eng ?st' later = (?st', later)"
    if i: "invoked ?st' = invoked ?st @ [w]" and f: "fst (eng (length (invoked ?st)) w) \<noteq> kTfLiteOk"
  proof -
    from i have c: "status ?st = Running" "samplesRead ?st + 1 = numSamples"
      and n: "store_row (inputTensor ?st) (samplesRead ?st) s \<noteq> None"
      unfolding step by (auto simp: poll_invoked split: if_splits)
    from n obtain t where t: "store_row (inputTensor ?st) (samplesRead ?st) s = Some t" by auto
    let ?st1 = "?st\<lparr>inputTensor := t, samplesRead := samplesRead ?st + 1\<rparr>"
    have p: "poll eng ?st s = run_inference eng ?st1"
      using c t by (simp add: poll_collect collect_body_last)
    from i c t have w: "w = t" unfolding step by (simp add: poll_invoked)
    obtain rc out where e: "eng (length (invoked ?st1)) (inputTensor ?st1) = (rc, out)"
      by (cases "eng (length (invoked ?st1)) (inputTensor ?st1)")
    with f w have "rc \<noteq> kTfLiteOk" by simp
    from run_inference_failed [of eng ?st1 rc out, OF e this]
    have h: "status ?st' = Halted \<and> serial ?st' = serial ?st @ [Text ''Invoke failed!'', Newline]"
      unfolding step p by simp
    then have stop: "run eng ?st' later = (?st', later)" by (simp add: run_stopped)
    have "samplesRead ?st \<le> numSamples" using c by simp
    from run_snoc_rest [OF c(1) this, of s later] stop
    have "run eng (setup_sketch b m) (ss @ s # later) = (?st', later)" by simp
    with h stop show ?thesis by simp
  qed
  then show ?thesis unfolding Let_def by simp
qed

theorem failed_invoke_halts_witness:
  "invoked (fst (run broken (setup_sketch True gait_model) (almost @ [quiet])))
     = invoked (fst (run broken (setup_sketch True gait_model) almost))
       @ [inputTensor (fst (run broken (setup_sketch True gait_model) (almost @ [quiet])))]
   \<and> fst (broken (length (invoked (fst (run broken (setup_sketch True gait_model) almost))))
                    (inputTensor (fst (run broken (setup_sketch True gait_model) (almost @ [quiet])))))
       \<noteq> kTfLiteOk
   \<and> status (fst (run broken (setup_sketch True gait_model) (almost @ [quiet]))) = Halted
   \<and> serial (fst (run broken (setup_sketch True gait_model) (almost @ [quiet])))
       = serial (fst (run broken (setup_sketch True gait_model) almost))
         @ [Text ''Invoke failed!'', Newline]
   \<and> run broken (setup_sketch True gait_model) (almost @ quiet # [quiet, quiet])
       = (fst (run broken (setup_sketch True gait_model) (almost @ [quiet])), [quiet, quiet])"
proof -
  have 1: "invoked (fst (run broken (setup_sketch True gait_model) (almost @ [quiet])))
     = invoked (fst (run broken (setup_sketch True gait_model) almost))
       @ [inputTensor (fst (run broken (setup_sketch True gait_model) (almost @ [quiet])))]"
    by (rule gait_invoked)
  have 2: "fst (broken (length (invoked (fst (run broken (setup_sketch True gait_model) almost))))
                    (inputTensor (fst (run broken (setup_sketch True gait_model) (almost @ [quiet])))))
       \<noteq> kTfLiteOk"
    by (simp add: broken_def)
  from failed_invoke_halts [of broken True gait_model almost quiet
      "inputTensor (fst (run broken (setup_sketch True gait_model) (almost @ [quiet])))"
      "[quiet, quiet]"] 1 2
  show ?thesis unfolding Let_def by blast
qed

text \<open>
  C7. When \<open>mpu.begin()\<close> fails, or the schema version of the model is not
  \<open>TFLITE_SCHEMA_VERSION\<close>, the state after \<open>setup()\<close> is halted; whatever readings the sensor
  could give, none is taken and the state never changes; the interpreter was never invoked;
  the serial output holds no score; a failed sensor leaves exactly the line
  ``Failed to initialize IMU!'', a wrong version leaves the configuration lines followed by
  ``Model schema mismatch!'', and the two messages differ from each other and from the one
  of a failed inference.
\<close>

theorem startup_failure_halts:
  assumes "\<not> mpu_begin \<or> version m \<noteq> TFLITE_SCHEMA_VERSION"
  shows "let st0 = setup_sketch mpu_begin m in
           status st0 = Halted
         \<and> run eng st0 ss = (st0, ss)
         \<and> invoked st0 = []
         \<and> (\<forall>v d. Number v d \<notin> set (serial st0))
         \<and> serial st0 =
             (if \<not> mpu_begin then [Text ''Failed to initialize IMU!'', Newline]
              else [Text ''Accelerometer range set to: '', Text ''+-2G'', Newline,
                    Text ''Gyro range set to: '', Text ''+- 2000 deg/s'', Newline,
                    Text ''Filter bandwidth set to: '', Text ''184 Hz'', Newline,
                    Newline,
                    Text ''Model schema mismatch!'', Newline])
         \<and> ''Failed to initialize IMU!'' \<noteq> ''Model schema mismatch!''
         \<and> ''Failed to initialize IMU!'' \<noteq> ''Invoke failed!''
         \<and> ''Model schema mismatch!'' \<noteq> ''Invoke failed!''"
proof -
  let ?init = "setup_sketch mpu_begin m"
  have h: "status ?init = Halted" using assms by (auto simp: setup_status)
  then have r: "run eng ?init ss = (?init, ss)" by (simp add: run_stopped)
  have s: "serial ?init =
             (if \<not> mpu_begin then [Text ''Failed to initialize IMU!'', Newline]
              else [Text ''Accelerometer range set to: '', Text ''+-2G'', Newline,
                    Text ''Gyro range set to: '', Text ''+- 2000 deg/s'', Newline,
                    Text ''Filter bandwidth set to: '', Text ''184 Hz'', Newline,
                    Newline,
                    Text ''Model schema mismatch!'', Newline])"
    using assms
    by (simp add: setup_sketch_def globals_def halt_def println_def print_def println_empty_def)
  have n: "\<forall>v d. Number v d \<notin> set (serial ?init)"
    unfolding s by simp
  show ?thesis
    unfolding Let_def using h r n s by (simp add: setup_invoked)
qed

theorem startup_failure_halts_witness:
  "status (setup_sketch False gait_model) = Halted
   \<and> run zero_scores (setup_sketch False gait_model) [quiet, quiet]
       = (setup_sketch False gait_model, [quiet, quiet])
   \<and> serial (setup_sketch False gait_model) = [Text ''Failed to initialize IMU!'', Newline]
   \<and> version (gait_model\<lparr>version := 2\<rparr>) \<noteq> TFLITE_SCHEMA_VERSION
   \<and> status (setup_sketch True (gait_model\<lparr>version := 2\<rparr>)) = Halted
   \<and> run zero_scores (setup_sketch True (gait_model\<lparr>version := 2\<rparr>)) [quiet, quiet]
       = (setup_sketch True (gait_model\<lparr>version := 2\<rparr>), [quiet, quiet])
   \<and> invoked (setup_sketch True (gait_model\<lparr>version := 2\<rparr>)) = []"
proof -
  have 1: "\<not> False \<or> version gait_model \<noteq> TFLITE_SCHEMA_VERSION" by simp
  have 2: "\<not> True \<or> version (gait_model\<lparr>version := 2\<rparr>) \<noteq> TFLITE_SCHEMA_VERSION"
    by (simp add: TFLITE_SCHEMA_VERSION_def)
  from startup_failure_halts [OF 1, of zero_scores "[quiet, quiet]"]
       startup_failure_halts [OF 2, of zero_scores "[quiet, quiet]"] 1 2
  show ?thesis by (simp add: Let_def)
qed

text \<open>
  C8, as the code has it. When the call of the interpreter made for a completed window
  returns \<open>kTfLiteOk\<close> and an output tensor of at least 6 floats, the sketch prints exactly six
  lines and one empty line: for each class, in the order of \<open>GAITS\<close>, the label, a colon and
  a space, and the score with 6 digits; and it stays running. \<open>GAITS\<close> has
  \<open>NUM_GAITS = 6\<close> entries. The length of the output tensor is not compared with the number
  of labels, at startup or later.
\<close>

theorem report_after_inference:
  "let st = fst (run eng (setup_sketch b m) ss);
       st' = fst (run eng (setup_sketch b m) (ss @ [s]))
   in length GAITS = NUM_GAITS \<and> NUM_GAITS = 6
      \<and> (invoked st' = invoked st @ [w] \<and> eng (length (invoked st)) w = (kTfLiteOk, out)
           \<and> 6 \<le> length out
         \<longrightarrow> status st' = Running
             \<and> serial st' = serial st @
                 [Text ''Healthy'', Text '': '', Number (out ! 0) 6, Newline,
                  Text ''Stage 1'', Text '': '', Number (out ! 1) 6, Newline,
                  Text ''Stage 2'', Text '': '', Number (out ! 2) 6, Newline,
                  Text ''Stage 3'', Text '': '', Number (out ! 3) 6, Newline,
                  Text ''Standing'', Text '': '', Number (out ! 4) 6, Newline,
                  Text ''Turning'', Text '': '', Number (out ! 5) 6, Newline,
                  Newline])"
proof -
  let ?st = "fst (run eng (setup_sketch b m) ss)"
  let ?st' = "fst (run eng (setup_sketch b m) (ss @ [s]))"
  have step: "?st' = poll eng ?st s" by (rule run_snoc)
  have up: "[0..<NUM_GAITS] = [0, 1, 2, 3, 4, 5]"
    by (simp add: NUM_GAITS_def upt_rec)
  have "status ?st' = Running
        \<and> serial ?st' = serial ?st @
                 [Text ''Healthy'', Text '': '', Number (out ! 0) 6, Newline,
                  Text ''Stage 1'', Text '': '', Number (out ! 1) 6, Newline,
                  Text ''Stage 2'', Text '': '', Number (out ! 2) 6, Newline,
                  Text ''Stage 3'', Text '': '', Number (out ! 3) 6, Newline,
                  Text ''Standing'', Text '': '', Number (out ! 4) 6, Newline,
                  Text ''Turning'', Text '': '', Number (out ! 5) 6, Newline,
                  Newline]"
    if i: "invoked ?st' = invoked ?st @ [w]" and e: "eng (length (invoked ?st)) w = (kTfLiteOk, out)"
      and l: "6 \<le> length out"
  proof -
    from i have c: "status ?st = Running" "samplesRead ?st + 1 = numSamples"
      and n: "store_row (inputTensor ?st) (samplesRead ?st) s \<noteq> None"
      unfolding step by (auto simp: poll_invoked split: if_splits)
    from n obtain t where t: "store_row (inputTensor ?st) (samplesRead ?st) s = Some t" by auto
    let ?st1 = "?st\<lparr>inputTensor := t, samplesRead := samplesRead ?st + 1\<rparr>"
    have p: "poll eng ?st s = run_inference eng ?st1"
      using c t by (simp add: poll_collect collect_body_last)
    from i c t have w: "w = t" unfolding step by (simp add: poll_invoked)
    have e1: "eng (length (invoked ?st1)) (inputTensor ?st1) = (kTfLiteOk, out)"
      using e w by simp
    have r1: "status ?st1 = Running" using c by simp
    have l1: "NUM_GAITS \<le> length out" using l by (simp add: NUM_GAITS_def)
    from run_inference_ok [of eng ?st1 out, OF e1 r1 l1]
    show ?thesis unfolding step p using c by (simp add: up report_line_def GAITS_def)
  qed
  then show ?thesis unfolding Let_def by (simp add: GAITS_def NUM_GAITS_def)
qed

theorem report_after_inference_witness:
  "invoked (fst (run zero_scores (setup_sketch True gait_model) (almost @ [quiet])))
     = invoked (fst (run zero_scores (setup_sketch True gait_model) almost))
       @ [inputTensor (fst (run zero_scores (setup_sketch True gait_model) (almost @ [quiet])))]
   \<and> zero_scores (length (invoked (fst (run zero_scores (setup_sketch True gait_model) almost))))
                  (inputTensor (fst (run zero_scores (setup_sketch True gait_model) (almost @ [quiet]))))
       = (kTfLiteOk, replicate 6 0)
   \<and> 6 \<le> length (replicate 6 (0 :: cfloat))
   \<and> status (fst (run zero_scores (setup_sketch True gait_model) (almost @ [quiet]))) = Running
   \<and> serial (fst (run zero_scores (setup_sketch True gait_model) (almost @ [quiet])))
       = serial (fst (run zero_scores (setup_sketch True gait_model) almost)) @
                 [Text ''Healthy'', Text '': '', Number 0 6, Newline,
                  Text ''Stage 1'', Text '': '', Number 0 6, Newline,
                  Text ''Stage 2'', Text '': '', Number 0 6, Newline,
                  Text ''Stage 3'', Text '': '', Number 0 6, Newline,
                  Text ''Standing'', Text '': '', Number 0 6, Newline,
                  Text ''Turning'', Text '': '', Number 0 6, Newline,
                  Newline]"
proof -
  have 1: "invoked (fst (run zero_scores (setup_sketch True gait_model) (almost @ [quiet])))
     = invoked (fst (run zero_scores (setup_sketch True gait_model) almost))
       @ [inputTensor (fst (run zero_scores (setup_sketch True gait_model) (almost @ [quiet])))]"
    by (rule gait_invoked)
  have 2: "zero_scores (length (invoked (fst (run zero_scores (setup_sketch True gait_model) almost))))
                  (inputTensor (fst (run zero_scores (setup_sketch True gait_model) (almost @ [quiet]))))
       = (kTfLiteOk, replicate 6 0)"
    by (simp add: zero_scores_def)
  have 3: "6 \<le> length (replicate 6 (0 :: cfloat))" by simp
  have 4: "replicate 6 (0 :: cfloat) ! 0 = 0" "replicate 6 (0 :: cfloat) ! 1 = 0"
    "replicate 6 (0 :: cfloat) ! 2 = 0" "replicate 6 (0 :: cfloat) ! 3 = 0"
    "replicate 6 (0 :: cfloat) ! 4 = 0" "replicate 6 (0 :: cfloat) ! 5 = 0"
    by simp_all
  from report_after_inference [of zero_scores True gait_model almost quiet
      "inputTensor (fst (run zero_scores (setup_sketch True gait_model) (almost @ [quiet])))"
      "replicate 6 0"] 1 2 3
  show ?thesis unfolding Let_def 4 by blast
qed

text \<open>
  The claim C8 also says that a label table and an output tensor of different lengths are
  caught at startup. They are not: with a model whose output tensor has 5 floats the state
  after \<open>setup()\<close> is running, and the only output is the configuration lines.
\<close>

theorem output_length_not_checked:
  "output_floats (gait_model\<lparr>output_floats := 5\<rparr>) \<noteq> length GAITS
   \<and> status (setup_sketch True (gait_model\<lparr>output_floats := 5\<rparr>)) = Running
   \<and> serial (setup_sketch True (gait_model\<lparr>output_floats := 5\<rparr>))
       = [Text ''Accelerometer range set to: '', Text ''+-2G'', Newline,
          Text ''Gyro range set to: '', Text ''+- 2000 deg/s'', Newline,
          Text ''Filter bandwidth set to: '', Text ''184 Hz'', Newline,
          Newline]"
  by (simp add: setup_sketch_def gait_model_def GAITS_def globals_def halt_def println_def
        print_def println_empty_def)

text \<open>
  C9. With the threshold of the source, \<open>0\<close>, the test \<open>aSum >= accelerationThreshold\<close>
  holds for every reading, since the sum of absolute values is not negative. So the first
  \<open>while\<close>, entered with \<open>samplesRead = numSamples\<close>, resets the counter at its first reading
  and leaves; and in every state the sketch reaches, if it is idle then the next reading
  starts an episode.
\<close>

theorem default_threshold_always_triggers:
  "aSum s \<ge> accelerationThreshold
   \<and> (samplesRead st = numSamples \<longrightarrow> wait_loop st (s # rest) = (st\<lparr>samplesRead := 0\<rparr>, rest))
   \<and> (let before = fst (run eng (setup_sketch b m) ss);
           after = fst (run eng (setup_sketch b m) (ss @ [s]))
       in status before = Running \<and> samplesRead before = numSamples
          \<longrightarrow> status after = Running \<and> samplesRead after = 0)"
proof -
  have t: "aSum s \<ge> accelerationThreshold" for s
    using aSum_nonneg [of s] by (simp add: accelerationThreshold_def)
  then show ?thesis
    by (simp add: run_snoc Let_def poll_idle)
qed

theorem default_threshold_always_triggers_witness:
  "samplesRead globals = numSamples
   \<and> wait_loop globals (quiet # []) = (globals\<lparr>samplesRead := 0\<rparr>, [])
   \<and> status (fst (run zero_scores (setup_sketch True gait_model) [])) = Running
   \<and> samplesRead (fst (run zero_scores (setup_sketch True gait_model) [])) = numSamples
   \<and> samplesRead (fst (run zero_scores (setup_sketch True gait_model) ([] @ [quiet]))) = 0"
proof -
  have 1: "samplesRead globals = numSamples" by (simp add: globals_def)
  have 2: "status (fst (run zero_scores (setup_sketch True gait_model) [])) = Running"
    by (simp add: run_fold setup_status gait_model_def)
  have 3: "samplesRead (fst (run zero_scores (setup_sketch True gait_model) [])) = numSamples"
    by (simp add: run_fold setup_samplesRead)
  from default_threshold_always_triggers
         [of quiet globals "[]" zero_scores True gait_model "[]"] 1 2 3
  show ?thesis by (simp add: Let_def)
qed

text \<open>
  C10. Every write to the input tensor is in bounds. In every state the sketch reaches, for
  every model, interpreter and list of readings: the counter satisfies
  \<open>0 \<le> samplesRead \<le> numSamples\<close>; where the second \<open>while\<close> is about to write a row (running,
  \<open>samplesRead < numSamples\<close>) the three indices \<open>samplesRead * 3 + k\<close> lie in \<open>0..<600\<close>, and the
  reading that is written moves the counter up by exactly one; in any other state a reading
  leaves the tensor as it is; with an input tensor of at least 600 floats no write is ever
  out of bounds; and the tensor keeps its length and whatever lies behind index 599.
\<close>

theorem tensor_writes_in_bounds:
  "let st0 = setup_sketch b m;
       st = fst (run eng st0 ss);
       st' = fst (run eng st0 (ss @ [s]))
   in 0 \<le> samplesRead st \<and> samplesRead st \<le> numSamples
      \<and> (status st = Running \<and> samplesRead st < numSamples \<longrightarrow>
           (\<forall>k \<in> {0, 1, 2}. 0 \<le> samplesRead st * 3 + k \<and> samplesRead st * 3 + k < 600)
           \<and> (status st' \<noteq> WriteOutOfBounds \<longrightarrow> samplesRead st' = samplesRead st + 1))
      \<and> (\<not> (status st = Running \<and> samplesRead st < numSamples) \<longrightarrow>
           inputTensor st' = inputTensor st)
      \<and> (600 \<le> input_floats m \<longrightarrow> status st \<noteq> WriteOutOfBounds)
      \<and> length (inputTensor st) = length (inputTensor st0)
      \<and> drop 600 (inputTensor st) = drop 600 (inputTensor st0)"
proof -
  let ?init = "setup_sketch b m"
  let ?st = "fst (run eng ?init ss)"
  let ?st' = "fst (run eng ?init (ss @ [s]))"
  have step: "?st' = poll eng ?st s" by (rule run_snoc)
  have range: "0 \<le> samplesRead ?st \<and> samplesRead ?st \<le> numSamples" by (rule reach_range)
  have idx: "\<forall>k \<in> {0, 1, 2}. 0 \<le> samplesRead ?st * 3 + k \<and> samplesRead ?st * 3 + k < 600"
    if "samplesRead ?st < numSamples"
    using that range by (auto simp: numSamples_def)
  have inc: "samplesRead ?st' = samplesRead ?st + 1"
    if "status ?st = Running" "samplesRead ?st < numSamples" "status ?st' \<noteq> WriteOutOfBounds"
    using that by (simp add: step poll_collect collect_body_increment)
  have keep: "inputTensor ?st' = inputTensor ?st"
    if "\<not> (status ?st = Running \<and> samplesRead ?st < numSamples)"
    unfolding step using that by (rule poll_input_unchanged)
  have nofault: "status ?st \<noteq> WriteOutOfBounds" if "600 \<le> input_floats m"
  proof (cases "b \<and> version m = TFLITE_SCHEMA_VERSION")
    case True
    have "status (foldl (poll eng) ?init ss) \<noteq> WriteOutOfBounds"
    proof (rule foldl_poll_no_write_fault)
      show "status ?init \<noteq> WriteOutOfBounds" by (simp add: setup_status)
      show "0 \<le> samplesRead ?init" "samplesRead ?init \<le> numSamples" using setup_range by simp_all
      show "3 * numSamples \<le> int (length (inputTensor ?init))"
        using True that by (simp add: setup_inputTensor numSamples_def)
    qed
    then show ?thesis by (simp add: run_fold)
  next
    case False
    then have "status ?init \<noteq> Running" by (auto simp: setup_status)
    then have "?st = ?init" by (simp add: run_stopped)
    then show ?thesis using False by (auto simp: setup_status)
  qed
  have len: "length (inputTensor ?st) = length (inputTensor ?init)"
    by (simp add: run_fold foldl_poll_length)
  have "drop (nat (3 * numSamples)) (inputTensor ?st) = drop (nat (3 * numSamples)) (inputTensor ?init)"
    by (simp add: run_fold foldl_poll_drop)
  then have frame: "drop 600 (inputTensor ?st) = drop 600 (inputTensor ?init)"
    by (simp add: numSamples_def)
  show ?thesis
    unfolding Let_def using range idx inc keep nofault len frame by blast
qed

theorem tensor_writes_in_bounds_witness:
  "status (fst (run zero_scores (setup_sketch True gait_model) [quiet])) = Running
   \<and> samplesRead (fst (run zero_scores (setup_sketch True gait_model) [quiet])) < numSamples
   \<and> (600::nat) \<le> input_floats gait_model
   \<and> 0 \<le> samplesRead (fst (run zero_scores (setup_sketch True gait_model) [quiet])) * 3 + 0
   \<and> samplesRead (fst (run zero_scores (setup_sketch True gait_model) [quiet])) * 3 + 2 < 600
   \<and> status (fst (run zero_scores (setup_sketch True gait_model) ([quiet] @ [quiet]))) \<noteq> WriteOutOfBounds
   \<and> samplesRead (fst (run zero_scores (setup_sketch True gait_model) ([quiet] @ [quiet])))
       = samplesRead (fst (run zero_scores (setup_sketch True gait_model) [quiet])) + 1
   \<and> \<not> (status (fst (run zero_scores (setup_sketch True gait_model) [])) = Running
          \<and> samplesRead (fst (run zero_scores (setup_sketch True gait_model) [])) < numSamples)
   \<and> inputTensor (fst (run zero_scores (setup_sketch True gait_model) ([] @ [quiet])))
       = inputTensor (fst (run zero_scores (setup_sketch True gait_model) []))"
proof -
  let ?init = "setup_sketch True gait_model"
  have s0: "status ?init = Running" "samplesRead ?init = numSamples"
    by (simp_all add: setup_status setup_samplesRead gait_model_def)
  have p1: "fst (run zero_scores ?init [quiet]) = ?init\<lparr>samplesRead := 0\<rparr>"
    using s0 aSum_nonneg [of quiet] by (simp add: run_fold poll_idle accelerationThreshold_def)
  have 1: "status (fst (run zero_scores ?init [quiet])) = Running"
    and 2: "samplesRead (fst (run zero_scores ?init [quiet])) < numSamples"
    using s0 by (simp_all add: p1 numSamples_def)
  have 3: "(600::nat) \<le> input_floats gait_model" by (simp add: gait_model_def)
  have 4: "\<not> (status (fst (run zero_scores ?init [])) = Running
          \<and> samplesRead (fst (run zero_scores ?init [])) < numSamples)"
    using s0 by (simp add: run_fold)
  from tensor_writes_in_bounds [of True gait_model zero_scores "[quiet]" quiet] 1 2 3
  have a: "(\<forall>k \<in> {0, 1, 2}. 0 \<le> samplesRead (fst (run zero_scores ?init [quiet])) * 3 + k
         \<and> samplesRead (fst (run zero_scores ?init [quiet])) * 3 + k < 600)"
    and b: "status (fst (run zero_scores ?init ([quiet] @ [quiet]))) \<noteq> WriteOutOfBounds
         \<longrightarrow> samplesRead (fst (run zero_scores ?init ([quiet] @ [quiet])))
       = samplesRead (fst (run zero_scores ?init [quiet])) + 1"
    and c: "status (fst (run zero_scores ?init [quiet])) \<noteq> WriteOutOfBounds"
    unfolding Let_def by blast+
  from tensor_writes_in_bounds [of True gait_model zero_scores "[quiet] @ [quiet]" quiet] 3
  have d: "status (fst (run zero_scores ?init ([quiet] @ [quiet]))) \<noteq> WriteOutOfBounds"
    unfolding Let_def by blast
  from tensor_writes_in_bounds [of True gait_model zero_scores "[]" quiet] 4
  have e: "inputTensor (fst (run zero_scores ?init ([] @ [quiet])))
       = inputTensor (fst (run zero_scores ?init []))"
    unfolding Let_def by blast
  from a have a0: "0 \<le> samplesRead (fst (run zero_scores ?init [quiet])) * 3 + 0"
    and a2: "samplesRead (fst (run zero_scores ?init [quiet])) * 3 + 2 < 600"
    by blast+
  from 1 2 3 4 a0 a2 b d e show ?thesis by blast
qed

end
